theory Spec2Isabelle
  imports Main "HOL-Library.Word" "HOL-Library.Monad_Syntax"
begin

section \<open>Botan command line: number theory commands (src/cli/math.cpp)\<close>

text \<open>
  A shallow embedding of the commands \<^verbatim>\<open>mod_inverse\<close> and \<^verbatim>\<open>factor\<close> of
  \<^verbatim>\<open>src/cli/math.cpp\<close>. A \<^verbatim>\<open>Botan::BigInt\<close> is an \<^typ>\<open>int\<close>; every value that
  reaches a division here is divided by a positive divisor, where the quotient of HOL
  agrees with the library's for non-negative dividends. \<^verbatim>\<open>Botan::gcd\<close> is the greatest
  common divisor \<^term>\<open>gcd\<close> of HOL. A vector of integers is an \<^typ>\<open>int list\<close> and
  \<^verbatim>\<open>push_back\<close> appends at the end. A loop that need not end is a partial function
  into \<^typ>\<open>'a option\<close>, where \<^term>\<open>None\<close> stands for a run that never returns.
\<close>

subsection \<open>Collaborators that are not part of the file\<close>

text \<open>
  The Montgomery arithmetic (\<^verbatim>\<open>Montgomery_Params\<close>, \<^verbatim>\<open>Montgomery_Int\<close>), the table
  \<^verbatim>\<open>Botan::PRIMES\<close>, the test \<^verbatim>\<open>Botan::is_prime\<close> and the random number generator
  are used by the file and declared elsewhere. They are parameters of the embedding:
  a record of the operations that \<^verbatim>\<open>rho\<close> calls on Montgomery values of an abstract
  type \<^typ>\<open>'m\<close>, and an environment over an abstract generator state \<^typ>\<open>'r\<close>.
  The table holds \<^verbatim>\<open>uint16_t\<close> entries; its length is \<^verbatim>\<open>PRIME_TABLE_SIZE\<close>.
  A call that takes the generator by reference returns the new generator state.
\<close>

record 'm monty =
  m_one :: "'m"
  m_init :: "int \<Rightarrow> 'm"
  m_square_this :: "'m \<Rightarrow> 'm"
  m_add :: "'m \<Rightarrow> 'm \<Rightarrow> 'm"
  m_sub :: "'m \<Rightarrow> 'm \<Rightarrow> 'm"
  m_mul_by :: "'m \<Rightarrow> 'm \<Rightarrow> 'm"
  m_value :: "'m \<Rightarrow> int"

record ('m, 'r) env =
  PRIMES :: "16 word list"
  is_prime :: "int \<Rightarrow> 'r \<Rightarrow> bool \<times> 'r"
  random_integer :: "'r \<Rightarrow> int \<Rightarrow> int \<Rightarrow> int \<times> 'r"
  Montgomery_Params :: "int \<Rightarrow> 'm monty"

subsection \<open>\<^verbatim>\<open>Factor::remove_small_factors\<close>\<close>

text \<open>
  The argument \<^verbatim>\<open>n\<close> is passed by reference and changed in place: the embedding
  returns its final value next to the vector of factors. The three loops of the
  function are three recursive functions, each over the variables its loop changes:
  \<^item> \<open>even_loop\<close> is \<^verbatim>\<open>while(n.is_even()) { factors.push_back(2); n /= 2; }\<close>.
    Nothing in it excludes \<^verbatim>\<open>n == 0\<close>, for which it does not end.
  \<^item> \<open>emit_loop\<close> is \<^verbatim>\<open>while(x != 1) { x /= prime; factors.push_back(prime); }\<close>.
  \<^item> \<open>table_loop\<close> is the \<^verbatim>\<open>for\<close> loop over the table, by recursion on the
    entries that are left; \<^verbatim>\<open>break\<close> returns at once.
\<close>

partial_function (option) even_loop :: "int \<Rightarrow> int list \<Rightarrow> (int \<times> int list) option" where
  "even_loop n factors =
     (if even n then even_loop (n div 2) (factors @ [2]) else Some (n, factors))"

partial_function (option) emit_loop :: "int \<Rightarrow> int \<Rightarrow> int list \<Rightarrow> int list option" where
  "emit_loop x prime factors =
     (if x \<noteq> 1 then emit_loop (x div prime) prime (factors @ [prime]) else Some factors)"

declare even_loop.simps [code] emit_loop.simps [code]

fun table_loop :: "16 word list \<Rightarrow> int \<Rightarrow> int list \<Rightarrow> (int \<times> int list) option" where
  "table_loop [] n factors = Some (n, factors)"
| "table_loop (prime # rest) n factors =
     (if n < uint prime then Some (n, factors)
      else
        let x = gcd n (uint prime) in
        if x \<noteq> 1 then
          (case emit_loop x (uint prime) factors of
             None \<Rightarrow> None
           | Some factors' \<Rightarrow> table_loop rest (n div x) factors')
        else table_loop rest n factors)"

definition remove_small_factors :: "16 word list \<Rightarrow> int \<Rightarrow> (int \<times> int list) option" where
  "remove_small_factors tbl n =
     (case even_loop n [] of
        None \<Rightarrow> None
      | Some (n1, factors) \<Rightarrow> table_loop tbl n1 factors)"

subsection \<open>\<^verbatim>\<open>Factor::rho\<close>\<close>

text \<open>
  The state of the loop is \<^verbatim>\<open>(x, y, z, i, k)\<close>; \<^verbatim>\<open>i\<close> and \<^verbatim>\<open>k\<close> are
  \<^verbatim>\<open>size_t\<close>, taken as 64-bit words whose arithmetic wraps around. \<open>rho_body\<close> is
  one pass through the body of \<^verbatim>\<open>while(true)\<close>: \<^term>\<open>Inl d\<close> when the pass leaves
  the function with the value \<open>d\<close> (both \<^verbatim>\<open>break\<close>s lead to \<^verbatim>\<open>return 0\<close>),
  \<^term>\<open>Inr s\<close> when the loop goes on in state \<open>s\<close>. \<open>rho_loop\<close> repeats the body.
  It is a total function: the distance of \<^verbatim>\<open>i\<close> to the cap decreases with each
  pass, also from a counter that would wrap around.
\<close>

type_synonym 'm rho_state = "'m \<times> 'm \<times> 'm \<times> 64 word \<times> 64 word"

definition rho_body :: "'m monty \<Rightarrow> int \<Rightarrow> 'm rho_state \<Rightarrow> int + 'm rho_state" where
  "rho_body M n s =
     (case s of (x, y, z, i, k) \<Rightarrow>
        let i = i + 1 in
        if i \<ge> 0xFFFF0000 then Inl 0
        else
          let x = m_add M (m_square_this M x) (m_one M);
              t = m_sub M y x;
              z = m_mul_by M z t
          in
            if i = k \<or> i mod 128 = 0 then
              (let d = gcd (m_value M z) n; z = m_one M in
               if d = n then Inl 0
               else if d \<noteq> 1 then Inl d
               else if i = k then Inr (x, x, z, i, 2 * k)
               else Inr (x, y, z, i, k))
            else if i = k then Inr (x, x, z, i, 2 * k)
            else Inr (x, y, z, i, k))"

function rho_loop :: "'m monty \<Rightarrow> int \<Rightarrow> 'm rho_state \<Rightarrow> int" where
  "rho_loop M n s = (case rho_body M n s of Inl d \<Rightarrow> d | Inr s' \<Rightarrow> rho_loop M n s')"
  by pat_completeness auto
termination
proof (relation "measure (\<lambda>(M, n, x, y, z, i, k). unat (0xFFFEFFFF - i))")
  show "wf (measure (\<lambda>(M :: 'm monty, n :: int, x :: 'm, y :: 'm, z :: 'm, i :: 64 word, k :: 64 word).
              unat (0xFFFEFFFF - i)))"
    by simp
next
  fix M :: "'m monty" and n :: int and s s' :: "'m rho_state"
  assume step: "rho_body M n s = Inr s'"
  obtain x y z i k where s: "s = (x, y, z, i, k)" by (cases s) auto
  obtain x' y' z' i' k' where s': "s' = (x', y', z', i', k')" by (cases s') auto
  from step have i': "i' = i + 1" and lt: "i + 1 < 0xFFFF0000"
    by (auto simp: rho_body_def s s' Let_def split: if_splits)
  have ne: "0xFFFEFFFF - i \<noteq> 0"
  proof
    assume "0xFFFEFFFF - i = 0"
    then have "i = 0xFFFEFFFF" by simp
    with lt show False by simp
  qed
  have "unat (0xFFFEFFFF - i - 1) < unat (0xFFFEFFFF - i)"
    using ne by (rule measure_unat)
  moreover have "0xFFFEFFFF - i' = 0xFFFEFFFF - i - 1" by (simp add: i')
  ultimately have "unat (0xFFFEFFFF - i') < unat (0xFFFEFFFF - i)" by (simp only:)
  then show "((M, n, s'), (M, n, s)) \<in> measure (\<lambda>(M, n, x, y, z, i, k). unat (0xFFFEFFFF - i))"
    unfolding s s' by simp
qed

text \<open>
  The function itself: the Montgomery parameters of \<^verbatim>\<open>n\<close>, the seed drawn with
  \<^verbatim>\<open>random_integer(rng, 2, n - 3)\<close> and taken as a Montgomery value, \<^verbatim>\<open>y = x\<close>,
  \<^verbatim>\<open>z = one\<close>, \<^verbatim>\<open>i = 1\<close>, \<^verbatim>\<open>k = 2\<close>, then the loop.
\<close>

definition rho :: "('m, 'r) env \<Rightarrow> int \<Rightarrow> 'r \<Rightarrow> int \<times> 'r" where
  "rho E n rng =
     (let M = Montgomery_Params E n;
          (x0, rng') = random_integer E rng 2 (n - 3);
          x = m_init M x0
      in (rho_loop M n (x, x, m_one M, 1, 2), rng'))"

text \<open>
  The same loop with a bound on the number of passes through the body: \<^term>\<open>None\<close>
  when \<open>m\<close> passes have not left the function. It measures how long \<open>rho_loop\<close> runs.
\<close>

fun rho_iter :: "nat \<Rightarrow> 'm monty \<Rightarrow> int \<Rightarrow> 'm rho_state \<Rightarrow> int option" where
  "rho_iter 0 M n s = None"
| "rho_iter (Suc m) M n s =
     (case rho_body M n s of Inl d \<Rightarrow> Some d | Inr s' \<Rightarrow> rho_iter m M n s')"

subsection \<open>\<^verbatim>\<open>Factor::factorize\<close>\<close>

text \<open>
  \<open>rho_retry\<close> is \<^verbatim>\<open>while(a_factor == 0) { a_factor = rho(n, rng); }\<close>, entered with
  \<^verbatim>\<open>a_factor = 0\<close>; it does not end when every attempt fails.

  \<^verbatim>\<open>factorize\<close> calls itself from inside its \<^verbatim>\<open>while(n != 1)\<close> loop. The function
  and its loop are one partial function over a sum: \<^term>\<open>Inl (n_in, rng)\<close> is a call
  of \<^verbatim>\<open>factorize(n_in, rng)\<close>, which copies \<^verbatim>\<open>n_in\<close> into its local \<^verbatim>\<open>n\<close> and
  runs \<^verbatim>\<open>remove_small_factors\<close> on the copy; \<^term>\<open>Inr (n, factors, rng)\<close> is the
  head of the loop with the local variables \<^verbatim>\<open>n\<close> and \<^verbatim>\<open>factors\<close>. The
  \<^verbatim>\<open>for\<close> loop that pushes every entry of \<^verbatim>\<open>rho_factored\<close> appends the list.
  \<open>factorize\<close> and \<open>factor_loop\<close> name the two halves; the lemmas
  \<open>factorize_unfold\<close> and \<open>factor_loop_unfold\<close> below give them in the shape of the
  source.
\<close>

partial_function (option) rho_retry ::
  "('m, 'r) env \<Rightarrow> int \<Rightarrow> int \<Rightarrow> 'r \<Rightarrow> (int \<times> 'r) option" where
  "rho_retry E n a_factor rng =
     (if a_factor = 0 then (case rho E n rng of (a, rng') \<Rightarrow> rho_retry E n a rng')
      else Some (a_factor, rng))"

partial_function (option) factorize_rec ::
  "('m, 'r) env \<Rightarrow> (int \<times> 'r) + (int \<times> int list \<times> 'r) \<Rightarrow> (int list \<times> 'r) option" where
  "factorize_rec E a =
     (case a of
        Inl (n_in, rng) \<Rightarrow>
          Option.bind (remove_small_factors (PRIMES E) n_in)
            (\<lambda>(n, factors). factorize_rec E (Inr (n, factors, rng)))
      | Inr (n, factors, rng) \<Rightarrow>
          if n \<noteq> 1 then
            (case is_prime E n rng of (pr, rng1) \<Rightarrow>
               if pr then Some (factors @ [n], rng1)
               else
                 Option.bind (rho_retry E n 0 rng1) (\<lambda>(a_factor, rng2).
                 Option.bind (factorize_rec E (Inl (a_factor, rng2))) (\<lambda>(rho_factored, rng3).
                   factorize_rec E (Inr (n div a_factor, factors @ rho_factored, rng3)))))
          else Some (factors, rng))"

declare rho_retry.simps [code] factorize_rec.simps [code]

definition factorize :: "('m, 'r) env \<Rightarrow> int \<Rightarrow> 'r \<Rightarrow> (int list \<times> 'r) option" where
  "factorize E n_in rng = factorize_rec E (Inl (n_in, rng))"

definition factor_loop ::
  "('m, 'r) env \<Rightarrow> int \<Rightarrow> int list \<Rightarrow> 'r \<Rightarrow> (int list \<times> 'r) option" where
  "factor_loop E n factors rng = factorize_rec E (Inr (n, factors, rng))"

subsection \<open>\<^verbatim>\<open>Factor::go\<close>\<close>

text \<open>
  The command builds \<^verbatim>\<open>n\<close> from its argument, calls \<^verbatim>\<open>factorize(n, rng())\<close>,
  sorts the vector and prints \<^verbatim>\<open>n\<close>, a colon and the sorted factors. The embedding
  starts from the integer that was built and returns what is printed: the header and
  the list. There is no other statement in the function.
\<close>

definition Factor_go :: "('m, 'r) env \<Rightarrow> int \<Rightarrow> 'r \<Rightarrow> (int \<times> int list) option" where
  "Factor_go E n rng =
     (case factorize E n rng of
        None \<Rightarrow> None
      | Some (factors, rng') \<Rightarrow> Some (n, sort factors))"

subsection \<open>\<^verbatim>\<open>Modular_Inverse::go\<close>\<close>

text \<open>
  Modelled from the spec: \<^verbatim>\<open>Botan::inverse_mod\<close> is not part of the file. The
  specification describes it as the primitive that returns the inverse of \<open>n\<close> modulo
  \<open>mod\<close> and fails when \<open>n\<close> has no inverse. The inverse is looked for among the
  residues \<open>0, ..., mod - 1\<close>; the failure is the error value.
\<close>

datatype error = Not_Invertible

definition inverse_mod :: "int \<Rightarrow> int \<Rightarrow> error + int" where
  "inverse_mod n m =
     (case find (\<lambda>y. n * y mod m = 1) [0..m - 1] of
        None \<Rightarrow> Inl Not_Invertible
      | Some y \<Rightarrow> Inr y)"

text \<open>
  The command prints what the primitive returns; a failure of the primitive leaves
  the command before anything is printed.
\<close>

definition Modular_Inverse_go :: "int \<Rightarrow> int \<Rightarrow> error + int" where
  "Modular_Inverse_go n m =
     (case inverse_mod n m of
        Inl e \<Rightarrow> Inl e
      | Inr v \<Rightarrow> Inr v)"

subsection \<open>The same functions over a store of integers\<close>

text \<open>
  \<^verbatim>\<open>factorize\<close> takes \<^verbatim>\<open>n_in\<close> by constant reference and
  \<^verbatim>\<open>remove_small_factors\<close> takes \<^verbatim>\<open>n\<close> by reference. To say which integer
  object a function reads and which one it changes, the integers that are referred to
  live in a store: \<open>cells\<close> holds the value at each address and \<open>used\<close> is the
  number of objects that are alive, the addresses below it. A declaration takes the
  next address (\<open>alloc\<close>), an assignment changes one cell (\<open>assign\<close>), and the
  end of the scope of the object declared last gives its address back (\<open>release\<close>).
  A reference is an address.
  \<^item> \<open>remove_small_factors_store\<close> runs the function on the value of the object
    that \<^verbatim>\<open>n\<close> refers to and leaves the residual in that object.
  \<^item> \<open>factorize_store_rec\<close> is \<open>factorize_rec\<close> with its integers in the
    store. \<^term>\<open>Inl (n_in, rng, \<sigma>)\<close> is the call with the reference
    \<^verbatim>\<open>n_in\<close>: \<^verbatim>\<open>Botan::BigInt n = n_in;\<close> declares the local \<^verbatim>\<open>n\<close>
    with the value read through \<^verbatim>\<open>n_in\<close>, \<^verbatim>\<open>remove_small_factors(n)\<close> gets
    the address of the local, and the local ends with the call.
    \<^term>\<open>Inr (n, factors, rng, \<sigma>)\<close> is the head of the loop, \<^verbatim>\<open>n\<close> the
    address of the local. An iteration declares \<^verbatim>\<open>a_factor\<close> with 0, assigns
    it the divisor, passes its address to the recursive call, executes
    \<^verbatim>\<open>n /= a_factor\<close> on the two objects, and ends the scope of
    \<^verbatim>\<open>a_factor\<close>.
  \<^item> \<open>Factor_go_store\<close> is \<^verbatim>\<open>Factor::go\<close>: it declares \<^verbatim>\<open>n\<close> with the
    integer built from the argument, passes its address to \<^verbatim>\<open>factorize\<close>, and
    prints the value that \<^verbatim>\<open>n\<close> has after the call, then the sorted factors.
\<close>

record store =
  cells :: "nat \<Rightarrow> int"
  used :: nat

definition alloc :: "int \<Rightarrow> store \<Rightarrow> nat \<times> store" where
  "alloc v \<sigma> = (used \<sigma>, \<lparr>cells = (cells \<sigma>)(used \<sigma> := v), used = Suc (used \<sigma>)\<rparr>)"

definition assign :: "nat \<Rightarrow> int \<Rightarrow> store \<Rightarrow> store" where
  "assign a v \<sigma> = \<sigma>\<lparr>cells := (cells \<sigma>)(a := v)\<rparr>"

definition release :: "store \<Rightarrow> store" where
  "release \<sigma> = \<sigma>\<lparr>used := used \<sigma> - 1\<rparr>"

definition remove_small_factors_store ::
  "16 word list \<Rightarrow> nat \<Rightarrow> store \<Rightarrow> (int list \<times> store) option" where
  "remove_small_factors_store tbl n \<sigma> =
     (case remove_small_factors tbl (cells \<sigma> n) of
        None \<Rightarrow> None
      | Some (n', factors) \<Rightarrow> Some (factors, assign n n' \<sigma>))"

partial_function (option) factorize_store_rec ::
  "('m, 'r) env \<Rightarrow> (nat \<times> 'r \<times> store) + (nat \<times> int list \<times> 'r \<times> store) \<Rightarrow>
     (int list \<times> 'r \<times> store) option" where
  "factorize_store_rec E a =
     (case a of
        Inl (n_in, rng, \<sigma>) \<Rightarrow>
          (case alloc (cells \<sigma> n_in) \<sigma> of (n, \<sigma>1) \<Rightarrow>
             Option.bind (remove_small_factors_store (PRIMES E) n \<sigma>1) (\<lambda>(factors, \<sigma>2).
             Option.bind (factorize_store_rec E (Inr (n, factors, rng, \<sigma>2)))
               (\<lambda>(factors', rng', \<sigma>3). Some (factors', rng', release \<sigma>3))))
      | Inr (n, factors, rng, \<sigma>) \<Rightarrow>
          if cells \<sigma> n \<noteq> 1 then
            (case is_prime E (cells \<sigma> n) rng of (pr, rng1) \<Rightarrow>
               if pr then Some (factors @ [cells \<sigma> n], rng1, \<sigma>)
               else
                 (case alloc 0 \<sigma> of (a_factor, \<sigma>1) \<Rightarrow>
                    Option.bind (rho_retry E (cells \<sigma>1 n) (cells \<sigma>1 a_factor) rng1)
                      (\<lambda>(d, rng2).
                    Option.bind
                      (factorize_store_rec E (Inl (a_factor, rng2, assign a_factor d \<sigma>1)))
                      (\<lambda>(rho_factored, rng3, \<sigma>2).
                         factorize_store_rec E
                           (Inr (n, factors @ rho_factored, rng3,
                                 release (assign n (cells \<sigma>2 n div cells \<sigma>2 a_factor) \<sigma>2)))))))
          else Some (factors, rng, \<sigma>))"

declare factorize_store_rec.simps [code]

definition factorize_store ::
  "('m, 'r) env \<Rightarrow> nat \<Rightarrow> 'r \<Rightarrow> store \<Rightarrow> (int list \<times> 'r \<times> store) option" where
  "factorize_store E n_in rng \<sigma> = factorize_store_rec E (Inl (n_in, rng, \<sigma>))"

definition Factor_go_store :: "('m, 'r) env \<Rightarrow> int \<Rightarrow> 'r \<Rightarrow> (int \<times> int list) option" where
  "Factor_go_store E v rng =
     (case alloc v \<lparr>cells = (\<lambda>a. 0), used = 0\<rparr> of (n, \<sigma>) \<Rightarrow>
        (case factorize_store E n rng \<sigma> of
           None \<Rightarrow> None
         | Some (factors, rng', \<sigma>') \<Rightarrow> Some (cells \<sigma>' n, sort factors)))"

subsection \<open>Predicates of the specification\<close>

text \<open>
  Primality by trial division, the verdict of the oracle on a number (at some state
  of the generator), and the postconditions used in the proofs about \<open>factorize_rec\<close>.
\<close>

definition isprime :: "int \<Rightarrow> bool" where
  "isprime p \<longleftrightarrow> 1 < p \<and> (\<forall>d\<in>{2..<p}. \<not> d dvd p)"

definition verified :: "('m, 'r) env \<Rightarrow> int \<Rightarrow> bool" where
  "verified E f \<longleftrightarrow> (\<exists>r. fst (is_prime E f r))"

definition entries_ok :: "('m, 'r) env \<Rightarrow> int list \<Rightarrow> bool" where
  "entries_ok E fs \<longleftrightarrow>
     (\<forall>f\<in>set fs. f = 2 \<or> f \<in> uint ` set (PRIMES E) \<or> verified E f)"

definition factors_ok :: "('m, 'r) env \<Rightarrow> int \<Rightarrow> int list \<Rightarrow> bool" where
  "factors_ok E n fs \<longleftrightarrow>
     prod_list fs = n \<and> entries_ok E fs \<and>
     (\<exists>j m. n = 2 ^ j * m \<and> odd m \<and> count_list fs 2 = j)"

definition rec_post ::
  "('m, 'r) env \<Rightarrow> (int \<times> 'r) + (int \<times> int list \<times> 'r) \<Rightarrow> (int list \<times> 'r) \<Rightarrow> bool" where
  "rec_post E a y \<longleftrightarrow>
     ((\<forall>p\<in>set (PRIMES E). isprime (uint p)) \<longrightarrow>
      (case a of
         Inl (n_in, rng) \<Rightarrow> 1 \<le> n_in \<longrightarrow> factors_ok E n_in (fst y)
       | Inr (n, factors, rng) \<Rightarrow>
           1 \<le> n \<and> odd n \<longrightarrow>
           (\<exists>F. fst y = factors @ F \<and> prod_list F = n \<and> entries_ok E F \<and> 2 \<notin> set F)))"

text \<open>
  The two directions between \<open>factorize_store_rec\<close> and \<open>factorize_rec\<close>: what a
  result over the store says about the result on values and about the objects that
  were alive, and that a result on values is also one over the store.
\<close>

definition store_post ::
  "('m, 'r) env \<Rightarrow> (nat \<times> 'r \<times> store) + (nat \<times> int list \<times> 'r \<times> store) \<Rightarrow>
     (int list \<times> 'r \<times> store) \<Rightarrow> bool" where
  "store_post E a y \<longleftrightarrow>
     (case a of
        Inl (n_in, rng, \<sigma>) \<Rightarrow>
          n_in < used \<sigma> \<longrightarrow>
          factorize_rec E (Inl (cells \<sigma> n_in, rng)) = Some (fst y, fst (snd y)) \<and>
          used (snd (snd y)) = used \<sigma> \<and>
          (\<forall>c<used \<sigma>. cells (snd (snd y)) c = cells \<sigma> c)
      | Inr (n, factors, rng, \<sigma>) \<Rightarrow>
          n < used \<sigma> \<longrightarrow>
          factorize_rec E (Inr (cells \<sigma> n, factors, rng)) = Some (fst y, fst (snd y)) \<and>
          used (snd (snd y)) = used \<sigma> \<and>
          (\<forall>c<used \<sigma>. c \<noteq> n \<longrightarrow> cells (snd (snd y)) c = cells \<sigma> c))"

definition store_pre ::
  "('m, 'r) env \<Rightarrow> (int \<times> 'r) + (int \<times> int list \<times> 'r) \<Rightarrow> (int list \<times> 'r) \<Rightarrow> bool" where
  "store_pre E a y \<longleftrightarrow>
     (case a of
        Inl (v, rng) \<Rightarrow>
          (\<forall>n_in \<sigma>. n_in < used \<sigma> \<and> cells \<sigma> n_in = v \<longrightarrow>
             (\<exists>\<sigma>'. factorize_store_rec E (Inl (n_in, rng, \<sigma>)) = Some (fst y, snd y, \<sigma>')))
      | Inr (v, factors, rng) \<Rightarrow>
          (\<forall>n \<sigma>. n < used \<sigma> \<and> cells \<sigma> n = v \<longrightarrow>
             (\<exists>\<sigma>'. factorize_store_rec E (Inr (n, factors, rng, \<sigma>)) = Some (fst y, snd y, \<sigma>'))))"

subsection \<open>A small environment for evaluation\<close>

text \<open>
  Modelled from the spec: the Montgomery arithmetic is not part of the file. The
  specification describes it as a representation of the residues modulo \<open>n\<close> with
  squaring, addition, subtraction and multiplication; here a residue represents
  itself.
\<close>

definition residue_monty :: "int \<Rightarrow> int monty" where
  "residue_monty n =
     \<lparr> m_one = 1,
       m_init = (\<lambda>v. v),
       m_square_this = (\<lambda>a. a * a mod n),
       m_add = (\<lambda>a b. (a + b) mod n),
       m_sub = (\<lambda>a b. (a - b) mod n),
       m_mul_by = (\<lambda>a b. a * b mod n),
       m_value = (\<lambda>a. a mod n) \<rparr>"

text \<open>
  Modelled from the spec: the table, the oracle and the generator are not part of the
  file. The environment has the first five entries of an ascending table of odd
  primes, an oracle that is never wrong, and a generator that counts its draws and
  returns the draw reduced into the range asked for.
\<close>

definition test_env :: "(int, nat) env" where
  "test_env =
     \<lparr> PRIMES = [3, 5, 7, 11, 13],
       is_prime = (\<lambda>n r. (isprime n, r)),
       random_integer = (\<lambda>r lo hi. (lo + int r mod (hi - lo), Suc r)),
       Montgomery_Params = residue_monty \<rparr>"

section \<open>Lemmas\<close>

subsection \<open>Small-factor removal\<close>

lemma isprime_gcd: 
  assumes "isprime p" shows "gcd n p = 1 \<or> gcd n p = p"
proof -
  let ?g = "gcd n p"
  have p: "1 < p" and nd: "\<And>d. 2 \<le> d \<Longrightarrow> d < p \<Longrightarrow> \<not> d dvd p"
    using assms by (auto simp: isprime_def)
  have "?g dvd p" by simp
  moreover have "0 \<le> ?g" by simp
  moreover have "?g \<noteq> 0" using p by auto
  moreover have "?g \<le> p" using p by (intro zdvd_imp_le) auto
  ultimately show ?thesis using nd [of ?g] by (cases "?g = 1"; cases "?g = p") auto
qed

lemma even_loop_nonzero:
  assumes "even_loop n fs = Some y" shows "n \<noteq> 0"
  using assms
proof (rule even_loop.raw_induct [where P = "\<lambda>n fs y. n \<noteq> 0", rotated])
  fix f :: "int \<Rightarrow> int list \<Rightarrow> (int \<times> int list) option" and n factors y
  assume IH: "\<And>n factors y. f n factors = Some y \<Longrightarrow> n \<noteq> 0"
    and body: "(if even n then f (n div 2) (factors @ [2]) else Some (n, factors)) = Some y"
  show "n \<noteq> 0"
  proof
    assume "n = 0"
    with body have "f 0 (factors @ [2]) = Some y" by simp
    from IH [OF this] show False by simp
  qed
qed

lemma even_loop_zero: "even_loop 0 fs = None"
  using even_loop_nonzero [of 0 fs] by (cases "even_loop 0 fs") auto

lemma even_loop_total:
  "n \<noteq> 0 \<Longrightarrow> \<exists>j n'. even_loop n fs = Some (n', fs @ replicate j 2) \<and> n = 2 ^ j * n' \<and> odd n'"
proof (induction "nat \<bar>n\<bar>" arbitrary: n fs rule: less_induct)
  case less
  show ?case
  proof (cases "even n")
    case False
    then have "even_loop n fs = Some (n, fs @ replicate 0 2)"
      by (subst even_loop.simps) simp
    with False show ?thesis by (intro exI [of _ 0] exI [of _ n]) simp
  next
    case True
    then obtain h where h: "n = 2 * h" by (auto elim: evenE)
    with less.prems have h0: "h \<noteq> 0" by auto
    have "nat \<bar>h\<bar> < nat \<bar>n\<bar>" using h h0 by auto
    from less.hyps [OF this h0, of "fs @ [2]"]
    obtain j n' where r: "even_loop h (fs @ [2]) = Some (n', (fs @ [2]) @ replicate j 2)"
      and e: "h = 2 ^ j * n'" and o: "odd n'" by blast
    have "even_loop n fs = even_loop h (fs @ [2])"
      using True h by (subst even_loop.simps) simp
    with r have "even_loop n fs = Some (n', fs @ replicate (Suc j) 2)"
      by (simp add: replicate_app_Cons_same)
    moreover have "n = 2 ^ Suc j * n'" using h e by simp
    ultimately show ?thesis using o by blast
  qed
qed

lemma emit_loop_once: "p \<noteq> 0 \<Longrightarrow> p \<noteq> 1 \<Longrightarrow> emit_loop p p fs = Some (fs @ [p])"
  by (subst emit_loop.simps, subst emit_loop.simps) simp

lemma table_loop_step:
  assumes "isprime (uint p)"
  shows "table_loop (p # rest) n fs =
    (if n < uint p then Some (n, fs)
     else if uint p dvd n then table_loop rest (n div uint p) (fs @ [uint p])
     else table_loop rest n fs)"
proof -
  have p1: "1 < uint p" using assms by (simp add: isprime_def)
  show ?thesis
  proof (cases "uint p dvd n")
    case True
    then have "gcd n (uint p) = uint p" using p1 by (simp add: gcd_proj2_iff)
    then show ?thesis using True p1 by (simp add: emit_loop_once Let_def)
  next
    case False
    then have "gcd n (uint p) \<noteq> uint p" by (metis gcd_dvd1)
    with isprime_gcd [OF assms, of n] have "gcd n (uint p) = 1" by auto
    then show ?thesis using False by simp
  qed
qed


lemma table_loop_spec:
  assumes "\<forall>p\<in>set tbl. isprime (uint p)"
  shows "\<exists>n' F. table_loop tbl n fs = Some (n', fs @ F) \<and> n = n' * prod_list F \<and>
           (\<forall>f\<in>set F. f \<in> uint ` set tbl \<and> f dvd n) \<and> (0 < n \<longrightarrow> 0 < n')"
  using assms
proof (induction tbl arbitrary: n fs)
  case Nil
  then show ?case by simp
next
  case (Cons p rest)
  then have pr: "isprime (uint p)" and rest: "\<forall>p\<in>set rest. isprime (uint p)" by auto
  have p1: "1 < uint p" using pr by (simp add: isprime_def)
  note step = table_loop_step [OF pr, of rest n fs]
  consider (brk) "n < uint p" | (hit) "\<not> n < uint p" "uint p dvd n"
    | (miss) "\<not> n < uint p" "\<not> uint p dvd n" by blast
  then show ?case
  proof cases
    case brk
    then have "table_loop (p # rest) n fs = Some (n, fs @ [])" using step by simp
    then show ?thesis by (intro exI [of _ n] exI [of _ "[]"]) simp
  next
    case hit
    from Cons.IH [OF rest, of "n div uint p" "fs @ [uint p]"]
    obtain n' F where r: "table_loop rest (n div uint p) (fs @ [uint p]) = Some (n', (fs @ [uint p]) @ F)"
      and e: "n div uint p = n' * prod_list F"
      and m: "\<forall>f\<in>set F. f \<in> uint ` set rest \<and> f dvd n div uint p"
      and pos: "0 < n div uint p \<longrightarrow> 0 < n'" by blast
    have n: "n = uint p * (n div uint p)" using hit by simp
    have "table_loop (p # rest) n fs = Some (n', fs @ (uint p # F))"
      using step hit r by simp
    moreover have "n = n' * prod_list (uint p # F)" using n e by simp
    moreover have "\<forall>f\<in>set (uint p # F). f \<in> uint ` set (p # rest) \<and> f dvd n"
    proof
      fix f assume "f \<in> set (uint p # F)"
      then consider "f = uint p" | "f \<in> set F" by auto
      then show "f \<in> uint ` set (p # rest) \<and> f dvd n"
      proof cases
        case 1 then show ?thesis using hit by simp
      next
        case 2
        with m have "f \<in> uint ` set rest" "f dvd n div uint p" by auto
        moreover have "n div uint p dvd n" using n by (metis dvd_triv_right)
        ultimately show ?thesis by (auto intro: dvd_trans)
      qed
    qed
    moreover have "0 < n \<longrightarrow> 0 < n'"
    proof
      assume "0 < n"
      then have "0 < n div uint p" using hit p1 by (simp add: pos_imp_zdiv_pos_iff)
      with pos show "0 < n'" by simp
    qed
    ultimately show ?thesis by blast
  next
    case miss
    from Cons.IH [OF rest, of n fs]
    obtain n' F where r: "table_loop rest n fs = Some (n', fs @ F)"
      and e: "n = n' * prod_list F"
      and m: "\<forall>f\<in>set F. f \<in> uint ` set rest \<and> f dvd n"
      and pos: "0 < n \<longrightarrow> 0 < n'" by blast
    have "table_loop (p # rest) n fs = Some (n', fs @ F)" using step miss r by simp
    moreover have "\<forall>f\<in>set F. f \<in> uint ` set (p # rest) \<and> f dvd n" using m by auto
    ultimately show ?thesis using e pos by blast
  qed
qed

lemma remove_small_factors_spec:
  assumes "\<forall>p\<in>set tbl. isprime (uint p)" and "n \<noteq> 0"
  shows "\<exists>j n1 n' F. remove_small_factors tbl n = Some (n', replicate j 2 @ F) \<and>
           n = 2 ^ j * n1 \<and> odd n1 \<and>
           table_loop tbl n1 (replicate j 2) = Some (n', replicate j 2 @ F) \<and>
           n1 = n' * prod_list F \<and>
           (\<forall>f\<in>set F. f \<in> uint ` set tbl \<and> f dvd n1) \<and> (0 < n \<longrightarrow> 0 < n')"
proof -
  from even_loop_total [OF assms(2), of "[]"]
  obtain j n1 where ev: "even_loop n [] = Some (n1, replicate j 2)"
    and n: "n = 2 ^ j * n1" and odd: "odd n1" by auto
  from table_loop_spec [OF assms(1), of n1 "replicate j 2"]
  obtain n' F where tl: "table_loop tbl n1 (replicate j 2) = Some (n', replicate j 2 @ F)"
    and e: "n1 = n' * prod_list F"
    and m: "\<forall>f\<in>set F. f \<in> uint ` set tbl \<and> f dvd n1"
    and pos: "0 < n1 \<longrightarrow> 0 < n'" by blast
  have "remove_small_factors tbl n = Some (n', replicate j 2 @ F)"
    using ev tl by (simp add: remove_small_factors_def)
  moreover have "0 < n \<longrightarrow> 0 < n'"
  proof
    assume "0 < n"
    with n have "0 < n1" by (simp add: zero_less_mult_iff)
    with pos show "0 < n'" by simp
  qed
  ultimately show ?thesis using n odd tl e m by blast
qed

lemma rho_body_result:
  assumes "1 < n" and "rho_body M n s = Inl d"
  shows "d = 0 \<or> (1 < d \<and> d < n \<and> d dvd n)"
proof -
  obtain x y z i k where s: "s = (x, y, z, i, k)" by (cases s) auto
  have g: "1 < gcd v n \<and> gcd v n < n \<and> gcd v n dvd n" if "gcd v n \<noteq> n" "gcd v n \<noteq> 1" for v
  proof -
    have d: "gcd v n dvd n" by simp
    have "0 \<le> gcd v n" by simp
    moreover have "gcd v n \<noteq> 0" using assms(1) by auto
    moreover have "gcd v n \<le> n" using d assms(1) by (intro zdvd_imp_le) auto
    ultimately have "1 < gcd v n \<and> gcd v n < n" using that by linarith
    with d show ?thesis by simp
  qed
  from assms(2) show ?thesis
    by (auto simp: rho_body_def s Let_def split: if_splits dest: g)
qed

lemma rho_loop_result:
  "1 < n \<Longrightarrow>
   rho_loop M n s = 0 \<or> (1 < rho_loop M n s \<and> rho_loop M n s < n \<and> rho_loop M n s dvd n)"
proof (induction M n s rule: rho_loop.induct)
  case (1 M n s)
  show ?case
  proof (cases "rho_body M n s")
    case (Inl d)
    then have "rho_loop M n s = d" by (subst rho_loop.simps) simp
    with rho_body_result [OF "1.prems" Inl] show ?thesis by simp
  next
    case (Inr s')
    then have "rho_loop M n s = rho_loop M n s'" by (subst rho_loop.simps) simp
    with "1.IH" [OF Inr "1.prems"] show ?thesis by simp
  qed
qed

lemma rho_result:
  assumes "1 < n" and "rho E n rng = (d, rng')"
  shows "d = 0 \<or> (1 < d \<and> d < n \<and> d dvd n)"
proof -
  from assms(2) obtain s where "d = rho_loop (Montgomery_Params E n) n s"
    by (auto simp: rho_def Let_def split: prod.splits)
  with rho_loop_result [OF assms(1)] show ?thesis by simp
qed

lemma rho_retry_result:
  fixes E :: "('m, 'r) env"
  assumes "rho_retry E n a0 rng = Some y"
  shows "1 < n \<longrightarrow> (a0 = 0 \<or> (1 < a0 \<and> a0 < n \<and> a0 dvd n)) \<longrightarrow>
         (1 < fst y \<and> fst y < n \<and> fst y dvd n)"
  using assms
proof (rule rho_retry.raw_induct [where P = "\<lambda>E n a0 rng y.
    1 < n \<longrightarrow> (a0 = 0 \<or> (1 < a0 \<and> a0 < n \<and> a0 dvd n)) \<longrightarrow>
         (1 < fst y \<and> fst y < n \<and> fst y dvd n)", rotated])
  fix f :: "('m, 'r) env \<Rightarrow> int \<Rightarrow> int \<Rightarrow> 'r \<Rightarrow> (int \<times> 'r) option"
    and E n a_factor rng y
  assume IH: "\<And>E n a0 rng y. f E n a0 rng = Some y \<Longrightarrow>
      1 < n \<longrightarrow> (a0 = 0 \<or> (1 < a0 \<and> a0 < n \<and> a0 dvd n)) \<longrightarrow>
         (1 < fst y \<and> fst y < n \<and> fst y dvd n)"
    and body: "(if a_factor = 0 then case rho E n rng of (a, rng') \<Rightarrow> f E n a rng'
               else Some (a_factor, rng)) = Some y"
  show "1 < n \<longrightarrow> (a_factor = 0 \<or> (1 < a_factor \<and> a_factor < n \<and> a_factor dvd n)) \<longrightarrow>
         (1 < fst y \<and> fst y < n \<and> fst y dvd n)"
  proof (intro impI)
    assume n: "1 < n" and a: "a_factor = 0 \<or> (1 < a_factor \<and> a_factor < n \<and> a_factor dvd n)"
    show "1 < fst y \<and> fst y < n \<and> fst y dvd n"
    proof (cases "a_factor = 0")
      case False
      with body a show ?thesis by auto
    next
      case True
      obtain a rng' where r: "rho E n rng = (a, rng')" by (cases "rho E n rng") auto
      with body True have "f E n a rng' = Some y" by simp
      from IH [OF this] rho_result [OF n r] n show ?thesis by blast
    qed
  qed
qed

lemma odd_pow2_mult: "odd ((2::int) ^ j * m) \<Longrightarrow> j = 0"
  by (cases j) auto

lemma factors_ok_odd_no_two:
  assumes "factors_ok E a fs" "odd a" shows "2 \<notin> set fs"
proof -
  from assms(1) obtain j m where "a = 2 ^ j * m" "count_list fs 2 = j"
    by (auto simp: factors_ok_def)
  with assms(2) odd_pow2_mult [of j m] have "count_list fs 2 = 0" by simp
  then show ?thesis by (simp add: count_list_0_iff)
qed

lemma count_list_replicate_same: "count_list (replicate j x) x = j"
  by (induction j) auto

lemma entries_ok_append: "entries_ok E (xs @ ys) \<longleftrightarrow> entries_ok E xs \<and> entries_ok E ys"
  by (auto simp: entries_ok_def)

lemma step_inl:
  fixes E :: "('m, 'r) env"
  assumes IH: "\<And>a y. f E a = Some y \<Longrightarrow> rec_post E a y"
    and body: "Option.bind (remove_small_factors (PRIMES E) n_in)
            (\<lambda>(n, factors). f E (Inr (n, factors, rng))) = Some y"
    and tbl: "\<forall>p\<in>set (PRIMES E). isprime (uint p)" and n1: "1 \<le> n_in"
  shows "factors_ok E n_in (fst y)"
proof -
  have "n_in \<noteq> 0" using n1 by simp
  from remove_small_factors_spec [OF tbl this]
  obtain j m n' F where r: "remove_small_factors (PRIMES E) n_in = Some (n', replicate j 2 @ F)"
    and e: "n_in = 2 ^ j * m" and odd: "odd m"
    and m: "m = n' * prod_list F"
    and F: "\<forall>f\<in>set F. f \<in> uint ` set (PRIMES E) \<and> f dvd m"
    and pos: "0 < n_in \<longrightarrow> 0 < n'" by blast
  from body r have "f E (Inr (n', replicate j 2 @ F, rng)) = Some y" by simp
  from IH [OF this] tbl
  have loop: "1 \<le> n' \<and> odd n' \<longrightarrow>
      (\<exists>G. fst y = (replicate j 2 @ F) @ G \<and> prod_list G = n' \<and> entries_ok E G \<and> 2 \<notin> set G)"
    by (simp add: rec_post_def)
  have "1 \<le> n'" using pos n1 by simp
  moreover have "odd n'" using odd m by simp
  ultimately obtain G where y: "fst y = replicate j 2 @ F @ G" and G: "prod_list G = n'"
    and okG: "entries_ok E G" and twoG: "2 \<notin> set G" using loop by auto
  have twoF: "2 \<notin> set F"
  proof
    assume "2 \<in> set F"
    with F have "2 dvd m" by blast
    with odd show False by simp
  qed
  have "prod_list (fst y) = n_in" using y G m e by (simp add: mult.commute)
  moreover have "entries_ok E (fst y)"
    using y okG F by (auto simp: entries_ok_def)
  moreover have "count_list (fst y) 2 = j"
    using y twoF twoG by (simp add: count_list_0_iff count_list_replicate_same)
  ultimately show ?thesis using e odd unfolding factors_ok_def by blast
qed

lemma step_inr:
  fixes E :: "('m, 'r) env"
  assumes IH: "\<And>a y. f E a = Some y \<Longrightarrow> rec_post E a y"
    and body: "(if n \<noteq> 1 then
            (case is_prime E n rng of (pr, rng1) \<Rightarrow>
               if pr then Some (factors @ [n], rng1)
               else
                 Option.bind (rho_retry E n 0 rng1) (\<lambda>(a_factor, rng2).
                 Option.bind (f E (Inl (a_factor, rng2))) (\<lambda>(rho_factored, rng3).
                   f E (Inr (n div a_factor, factors @ rho_factored, rng3)))))
          else Some (factors, rng)) = Some y"
    and tbl: "\<forall>p\<in>set (PRIMES E). isprime (uint p)" and n1: "1 \<le> n" and odd: "odd n"
  shows "\<exists>F. fst y = factors @ F \<and> prod_list F = n \<and> entries_ok E F \<and> 2 \<notin> set F"
proof (cases "n = 1")
  case True
  with body have "fst y = factors @ []" by auto
  with True show ?thesis by (intro exI [of _ "[]"]) (simp add: entries_ok_def)
next
  case False
  obtain pr rng1 where o: "is_prime E n rng = (pr, rng1)" by (cases "is_prime E n rng") auto
  show ?thesis
  proof (cases pr)
    case True
    with body False o have "fst y = factors @ [n]" by auto
    moreover have "verified E n" using o True unfolding verified_def
      by (intro exI [of _ rng]) simp
    moreover have "n \<noteq> 2" using odd by auto
    ultimately show ?thesis by (intro exI [of _ "[n]"]) (simp add: entries_ok_def)
  next
    case nopr: False
    from body False o nopr obtain a rng2 rf rng3
      where rr: "rho_retry E n 0 rng1 = Some (a, rng2)"
        and rec: "f E (Inl (a, rng2)) = Some (rf, rng3)"
        and rest: "f E (Inr (n div a, factors @ rf, rng3)) = Some y"
      by (auto split: Option.bind_splits)
    have gt: "1 < n" using n1 False by simp
    from rho_retry_result [OF rr] gt have a: "1 < a" "a < n" "a dvd n" by auto
    from IH [OF rec] tbl a(1) have ga: "factors_ok E a rf" by (simp add: rec_post_def)
    have odda: "odd a" using a(3) odd by (meson dvd_trans)
    have n: "n = a * (n div a)" using a(3) by simp
    have "0 < n div a" using a gt by (simp add: pos_imp_zdiv_pos_iff zdvd_imp_le)
    then have q1: "1 \<le> n div a" by simp
    have oddq: "odd (n div a)" using n odd by (metis even_mult_iff)
    from IH [OF rest] tbl q1 oddq obtain G
      where y: "fst y = (factors @ rf) @ G" and G: "prod_list G = n div a"
        and okG: "entries_ok E G" and twoG: "2 \<notin> set G"
      by (auto simp: rec_post_def)
    have "fst y = factors @ (rf @ G)" using y by simp
    moreover have "prod_list (rf @ G) = n" using ga G n by (simp add: factors_ok_def)
    moreover have "entries_ok E (rf @ G)" using ga okG by (simp add: entries_ok_append factors_ok_def)
    moreover have "2 \<notin> set (rf @ G)" using factors_ok_odd_no_two [OF ga odda] twoG by simp
    ultimately show ?thesis by blast
  qed
qed

lemma factorize_rec_ok:
  fixes E :: "('m, 'r) env"
  assumes "factorize_rec E a = Some y"
  shows "rec_post E a y"
  using assms
proof (rule factorize_rec.raw_induct [where P = rec_post, rotated])
  fix f :: "('m, 'r) env \<Rightarrow> (int \<times> 'r) + (int \<times> int list \<times> 'r) \<Rightarrow> (int list \<times> 'r) option"
    and E :: "('m, 'r) env" and a y
  assume IH: "\<And>E a y. f E a = Some y \<Longrightarrow> rec_post E a y"
    and body: "(case a of
        Inl (n_in, rng) \<Rightarrow>
          Option.bind (remove_small_factors (PRIMES E) n_in)
            (\<lambda>(n, factors). f E (Inr (n, factors, rng)))
      | Inr (n, factors, rng) \<Rightarrow>
          if n \<noteq> 1 then
            (case is_prime E n rng of (pr, rng1) \<Rightarrow>
               if pr then Some (factors @ [n], rng1)
               else
                 Option.bind (rho_retry E n 0 rng1) (\<lambda>(a_factor, rng2).
                 Option.bind (f E (Inl (a_factor, rng2))) (\<lambda>(rho_factored, rng3).
                   f E (Inr (n div a_factor, factors @ rho_factored, rng3)))))
          else Some (factors, rng)) = Some y"
  show "rec_post E a y"
  proof (cases a)
    case (Inl c)
    obtain n_in rng where c: "c = (n_in, rng)" by (cases c) auto
    from body have b: "Option.bind (remove_small_factors (PRIMES E) n_in)
            (\<lambda>(n, factors). f E (Inr (n, factors, rng))) = Some y"
      by (simp add: Inl c)
    show ?thesis unfolding rec_post_def Inl c
      using step_inl [of f E, OF IH b] by simp
  next
    case (Inr c)
    obtain n factors rng where c: "c = (n, factors, rng)" by (cases c) auto
    from body have b: "(if n \<noteq> 1 then
            (case is_prime E n rng of (pr, rng1) \<Rightarrow>
               if pr then Some (factors @ [n], rng1)
               else
                 Option.bind (rho_retry E n 0 rng1) (\<lambda>(a_factor, rng2).
                 Option.bind (f E (Inl (a_factor, rng2))) (\<lambda>(rho_factored, rng3).
                   f E (Inr (n div a_factor, factors @ rho_factored, rng3)))))
          else Some (factors, rng)) = Some y"
      by (simp add: Inr c)
    show ?thesis unfolding rec_post_def Inr c
      using step_inr [of f E, OF IH b] by simp
  qed
qed

lemma pow2_odd_unique:
  "(2::int) ^ j * m = 2 ^ k * m' \<Longrightarrow> odd m \<Longrightarrow> odd m' \<Longrightarrow> j = k"
proof (induction j arbitrary: k)
  case 0
  then have "odd ((2::int) ^ k * m')" by simp
  then show ?case using odd_pow2_mult [of k m'] by simp
next
  case (Suc j)
  show ?case
  proof (cases k)
    case 0
    with Suc.prems have "m' = 2 * (2 ^ j * m)" by simp
    with Suc.prems(3) show ?thesis by simp
  next
    case (Suc k')
    with Suc.prems(1) have "(2::int) ^ j * m = 2 ^ k' * m'" by simp
    from Suc.IH [OF this Suc.prems(2,3)] Suc show ?thesis by simp
  qed
qed

lemma isprime_two_or_odd: "isprime p \<Longrightarrow> p = 2 \<or> odd p"
  by (auto simp: isprime_def)

lemma isprime_not_dvd:
  assumes "isprime p" "isprime q" "q \<noteq> p" shows "\<not> q dvd p"
proof
  assume d: "q dvd p"
  have "1 < p" "1 < q" using assms by (auto simp: isprime_def)
  then have "q \<le> p" using d by (intro zdvd_imp_le) auto
  with assms d \<open>1 < q\<close> show False by (auto simp: isprime_def)
qed

lemma table_loop_one:
  assumes "\<forall>p\<in>set tbl. isprime (uint p)"
  shows "table_loop tbl 1 fs = Some (1, fs)"
proof (cases tbl)
  case Nil then show ?thesis by simp
next
  case (Cons q rest)
  with assms have q: "isprime (uint q)" by simp
  then have "1 < uint q" by (simp add: isprime_def)
  then show ?thesis using table_loop_step [OF q, of rest 1 fs] Cons by simp
qed

lemma table_loop_hit:
  assumes "\<forall>p\<in>set tbl. isprime (uint p)" "sorted tbl" "p \<in> set tbl"
  shows "table_loop tbl (uint p) fs = Some (1, fs @ [uint p])"
  using assms
proof (induction tbl)
  case Nil then show ?case by simp
next
  case (Cons q rest)
  then have q: "isprime (uint q)" and rest: "\<forall>p\<in>set rest. isprime (uint p)"
    and p: "isprime (uint p)" by auto
  have p1: "1 < uint p" using p by (simp add: isprime_def)
  note step = table_loop_step [OF q, of rest "uint p" fs]
  show ?case
  proof (cases "q = p")
    case True
    then show ?thesis using step p1 table_loop_one [OF rest] by simp
  next
    case False
    with Cons.prems have pin: "p \<in> set rest" and "q \<le> p" by auto
    then have le: "uint q \<le> uint p" by (simp add: word_le_def)
    have "uint q \<noteq> uint p" using False by (simp add: word_uint_eq_iff)
    from isprime_not_dvd [OF p q this] have "\<not> uint q dvd uint p" .
    moreover have "sorted rest" using Cons.prems by simp
    ultimately show ?thesis using step le Cons.IH [OF rest _ pin] by simp
  qed
qed

lemma remove_small_factors_table_prime:
  assumes "\<forall>p\<in>set tbl. isprime (uint p)" "sorted tbl" "p \<in> set tbl"
  shows "remove_small_factors tbl (uint p) = Some (1, [uint p])"
proof -
  have pr: "isprime (uint p)" using assms by simp
  from isprime_two_or_odd [OF this] show ?thesis
  proof
    assume two: "uint p = 2"
    have "even_loop 2 [] = Some (1, [2])"
      by (subst even_loop.simps, subst even_loop.simps) simp
    then show ?thesis using two table_loop_one [OF assms(1), of "[2]"]
      by (simp add: remove_small_factors_def)
  next
    assume "odd (uint p)"
    then have "even_loop (uint p) [] = Some (uint p, [])"
      by (subst even_loop.simps) simp
    then show ?thesis using table_loop_hit [OF assms, of "[]"]
      by (simp add: remove_small_factors_def)
  qed
qed

lemma factorize_unfold:
  "factorize E n_in rng =
     Option.bind (remove_small_factors (PRIMES E) n_in)
       (\<lambda>(n, factors). factor_loop E n factors rng)"
  unfolding factorize_def factor_loop_def by (subst factorize_rec.simps) simp

lemma factor_loop_unfold:
  "factor_loop E n factors rng =
     (if n \<noteq> 1 then
        (case is_prime E n rng of (pr, rng1) \<Rightarrow>
           if pr then Some (factors @ [n], rng1)
           else
             Option.bind (rho_retry E n 0 rng1) (\<lambda>(a_factor, rng2).
             Option.bind (factorize E a_factor rng2) (\<lambda>(rho_factored, rng3).
               factor_loop E (n div a_factor) (factors @ rho_factored) rng3)))
      else Some (factors, rng))"
  unfolding factorize_def factor_loop_def by (subst factorize_rec.simps) simp

lemma factorize_zero: "factorize E 0 rng = None"
  by (simp add: factorize_unfold remove_small_factors_def even_loop_zero)

lemma rho_body_decreases:
  assumes "rho_body M n (x, y, z, i, k) = Inr (x', y', z', i', k')"
  shows "unat (0xFFFEFFFF - i') < unat (0xFFFEFFFF - i)"
proof -
  from assms have i': "i' = i + 1" and lt: "i + 1 < 0xFFFF0000"
    by (auto simp: rho_body_def Let_def split: if_splits)
  have ne: "0xFFFEFFFF - i \<noteq> 0"
  proof
    assume "0xFFFEFFFF - i = 0"
    then have "i = 0xFFFEFFFF" by simp
    with lt show False by simp
  qed
  have "unat (0xFFFEFFFF - i - 1) < unat (0xFFFEFFFF - i)"
    using ne by (rule measure_unat)
  moreover have "0xFFFEFFFF - i' = 0xFFFEFFFF - i - 1" by (simp add: i')
  ultimately show ?thesis by (simp only:)
qed

lemma rho_iter_reaches:
  "(case s of (x, y, z, i, k) \<Rightarrow> unat (0xFFFEFFFF - i)) < m \<Longrightarrow>
   rho_iter m M n s = Some (rho_loop M n s)"
proof (induction M n s arbitrary: m rule: rho_loop.induct)
  case (1 M n s)
  from "1.prems" obtain m' where m: "m = Suc m'" by (cases m) auto
  show ?case
  proof (cases "rho_body M n s")
    case (Inl d)
    then have "rho_loop M n s = d" by (subst rho_loop.simps) simp
    with Inl m show ?thesis by simp
  next
    case (Inr s')
    obtain x y z i k where s: "s = (x, y, z, i, k)" by (cases s) auto
    obtain x' y' z' i' k' where s': "s' = (x', y', z', i', k')" by (cases s') auto
    from rho_body_decreases [OF Inr [unfolded s s']] "1.prems" m
    have "(case s' of (x, y, z, i, k) \<Rightarrow> unat (0xFFFEFFFF - i)) < m'"
      by (simp add: s s')
    from "1.IH" [OF Inr this] have "rho_iter m' M n s' = Some (rho_loop M n s')" .
    moreover have "rho_loop M n s = rho_loop M n s'" using Inr by (subst rho_loop.simps) simp
    ultimately show ?thesis using Inr m by simp
  qed
qed






lemma test_env_table: "\<forall>p\<in>set (PRIMES test_env). isprime (uint p)"
  by code_simp

lemma isprime_2: "isprime 2"
  by (simp add: isprime_def)

lemma inverse_mod_coprime:
  assumes "inverse_mod n m = Inr y" shows "coprime n m"
proof -
  from assms obtain y' where "find (\<lambda>y. n * y mod m = 1) [0..m - 1] = Some y'"
    by (auto simp: inverse_mod_def split: option.splits)
  then have e: "n * y' mod m = 1" by (auto simp: find_Some_iff)
  show ?thesis
  proof (rule coprimeI)
    fix c assume c: "c dvd n" "c dvd m"
    then have "c dvd n * y'" by simp
    with c(2) have "c dvd n * y' mod m" by (simp add: dvd_mod)
    with e show "is_unit c" by simp
  qed
qed

lemma modular_inverse_example: "Modular_Inverse_go 3 7 = Inr 5"
  by code_simp

lemma rho_body_cap:
  "0xFFFF0000 \<le> i + 1 \<Longrightarrow> rho_body M n (x, y, z, i, k) = Inl 0"
  by (simp add: rho_body_def)

subsection \<open>The step of the table loop, and the prime that is divided out\<close>




subsection \<open>\<open>rho\<close> on 25\<close>

text \<open>
  With residues modulo 25, every seed leads \<open>rho\<close> into the pass that computes
  \<open>d = n\<close>: the attempt returns 0 for each of the 25 residues, and a seed behaves
  as its residue does. Hence the loop that repeats \<open>rho\<close> on 25 does not end.
\<close>

lemma rho_loop_25_residues:
  "\<forall>x\<in>set [0..24]. rho_loop (residue_monty 25) 25 (x, x, 1, 1, 2) = 0"
  by code_simp

lemma rho_body_25_seed:
  "rho_body (residue_monty 25) 25 (x0, x0, 1, 1, 2) =
   rho_body (residue_monty 25) 25 (x0 mod 25, x0 mod 25, 1, 1, 2)"
proof -
  have sq: "x0 mod 25 * (x0 mod 25) mod 25 = x0 * x0 mod 25" by (simp add: mod_mult_eq)
  have df: "(x0 mod 25 - c) mod 25 = (x0 - c) mod 25" for c by (simp add: mod_diff_left_eq)
  show ?thesis
    by (simp add: rho_body_def residue_monty_def Let_def sq df)
qed

lemma rho_loop_25_seed: "rho_loop (residue_monty 25) 25 (x0, x0, 1, 1, 2) = 0"
proof -
  let ?M = "residue_monty 25"
  have "rho_loop ?M 25 (x0, x0, 1, 1, 2) =
        (case rho_body ?M 25 (x0, x0, 1, 1, 2) of Inl d \<Rightarrow> d | Inr s' \<Rightarrow> rho_loop ?M 25 s')"
    by (rule rho_loop.simps)
  also have "\<dots> =
        (case rho_body ?M 25 (x0 mod 25, x0 mod 25, 1, 1, 2) of
           Inl d \<Rightarrow> d | Inr s' \<Rightarrow> rho_loop ?M 25 s')"
    by (subst rho_body_25_seed) (rule refl)
  also have "\<dots> = rho_loop ?M 25 (x0 mod 25, x0 mod 25, 1, 1, 2)"
    by (rule rho_loop.simps [symmetric])
  finally have "rho_loop ?M 25 (x0, x0, 1, 1, 2) =
                rho_loop ?M 25 (x0 mod 25, x0 mod 25, 1, 1, 2)" .
  moreover have "x0 mod 25 \<in> set [0..24]" by simp
  ultimately show ?thesis using rho_loop_25_residues by simp
qed

lemma rho_25_fails:
  assumes "Montgomery_Params E 25 = residue_monty 25"
  shows "fst (rho E 25 rng) = 0"
proof -
  obtain x0 rng' where r: "random_integer E rng 2 (25 - 3) = (x0, rng')"
    by (cases "random_integer E rng 2 (25 - 3)") auto
  have sel: "m_init (residue_monty 25) x0 = x0" "m_one (residue_monty 25) = 1"
    by (simp_all add: residue_monty_def)
  have "rho E 25 rng = (rho_loop (residue_monty 25) 25 (x0, x0, 1, 1, 2), rng')"
    by (simp only: rho_def Let_def assms r prod.case sel)
  then show ?thesis by (simp only: rho_loop_25_seed fst_conv)
qed

lemma rho_retry_25_some:
  fixes E :: "(int, 'r) env"
  assumes "rho_retry E n a0 rng = Some y"
  shows "\<not> (Montgomery_Params E 25 = residue_monty 25 \<and> n = 25 \<and> a0 = 0)"
  using assms
proof (rule rho_retry.raw_induct [where P = "\<lambda>E n a0 rng y.
    \<not> (Montgomery_Params E 25 = residue_monty 25 \<and> n = 25 \<and> a0 = 0)", rotated])
  fix f :: "(int, 'r) env \<Rightarrow> int \<Rightarrow> int \<Rightarrow> 'r \<Rightarrow> (int \<times> 'r) option"
    and E :: "(int, 'r) env" and n a_factor rng y
  assume IH: "\<And>E n a0 rng y. f E n a0 rng = Some y \<Longrightarrow>
      \<not> (Montgomery_Params E 25 = residue_monty 25 \<and> n = 25 \<and> a0 = 0)"
    and body: "(if a_factor = 0 then case rho E n rng of (a, rng') \<Rightarrow> f E n a rng'
               else Some (a_factor, rng)) = Some y"
  show "\<not> (Montgomery_Params E 25 = residue_monty 25 \<and> n = 25 \<and> a_factor = 0)"
  proof
    assume a: "Montgomery_Params E 25 = residue_monty 25 \<and> n = 25 \<and> a_factor = 0"
    obtain d rng' where r: "rho E 25 rng = (d, rng')" by (cases "rho E 25 rng") auto
    with rho_25_fails [of E rng] a have "d = 0" by simp
    with body a r have "f E 25 0 rng' = Some y" by simp
    from IH [OF this] a show False by simp
  qed
qed

lemma rho_retry_25_never:
  assumes "Montgomery_Params E 25 = residue_monty 25"
  shows "rho_retry E 25 0 rng = None"
  using rho_retry_25_some [of E 25 0 rng] assms by (cases "rho_retry E 25 0 rng") auto

lemma factor_loop_25_never:
  assumes "Montgomery_Params E 25 = residue_monty 25" and "\<not> fst (is_prime E 25 rng)"
  shows "factor_loop E 25 factors rng = None"
proof -
  obtain pr rng1 where o: "is_prime E 25 rng = (pr, rng1)" by (cases "is_prime E 25 rng") auto
  with assms(2) have "\<not> pr" by simp
  then show ?thesis
    by (subst factor_loop_unfold) (simp add: o rho_retry_25_never [OF assms(1)])
qed

subsection \<open>The functions over the store\<close>

lemma store_step_inl:
  fixes E :: "('m, 'r) env"
  assumes IH: "\<And>a y. f E a = Some y \<Longrightarrow> store_post E a y"
    and body: "(case alloc (cells \<sigma> n_in) \<sigma> of (n, \<sigma>1) \<Rightarrow>
             Option.bind (remove_small_factors_store (PRIMES E) n \<sigma>1) (\<lambda>(factors, \<sigma>2).
             Option.bind (f E (Inr (n, factors, rng, \<sigma>2)))
               (\<lambda>(factors', rng', \<sigma>3). Some (factors', rng', release \<sigma>3)))) = Some y"
    and a: "n_in < used \<sigma>"
  shows "factorize_rec E (Inl (cells \<sigma> n_in, rng)) = Some (fst y, fst (snd y)) \<and>
         used (snd (snd y)) = used \<sigma> \<and>
         (\<forall>c<used \<sigma>. cells (snd (snd y)) c = cells \<sigma> c)"
proof -
  let ?n = "used \<sigma>"
  let ?\<sigma>1 = "\<lparr>cells = (cells \<sigma>)(?n := cells \<sigma> n_in), used = Suc ?n\<rparr>"
  from body obtain n' F fs rng' \<sigma>3
    where r: "remove_small_factors (PRIMES E) (cells \<sigma> n_in) = Some (n', F)"
      and l: "f E (Inr (?n, F, rng, assign ?n n' ?\<sigma>1)) = Some (fs, rng', \<sigma>3)"
      and y: "y = (fs, rng', release \<sigma>3)"
    by (auto simp: alloc_def remove_small_factors_store_def
             split: Option.bind_splits option.splits prod.splits)
  from IH [OF l] have
    p: "factorize_rec E (Inr (n', F, rng)) = Some (fs, rng')"
    and u: "used \<sigma>3 = Suc ?n"
    and c: "\<forall>c<Suc ?n. c \<noteq> ?n \<longrightarrow> cells \<sigma>3 c = cells (assign ?n n' ?\<sigma>1) c"
    by (simp_all add: store_post_def assign_def)
  have "factorize_rec E (Inl (cells \<sigma> n_in, rng)) = Some (fs, rng')"
    by (subst factorize_rec.simps) (simp add: r p)
  moreover have "used (release \<sigma>3) = ?n" by (simp add: release_def u)
  moreover have "\<forall>c<?n. cells (release \<sigma>3) c = cells \<sigma> c"
    using c by (simp add: release_def assign_def)
  ultimately show ?thesis by (simp add: y)
qed

lemma store_step_inr:
  fixes E :: "('m, 'r) env"
  assumes IH: "\<And>a y. f E a = Some y \<Longrightarrow> store_post E a y"
    and body: "(if cells \<sigma> n \<noteq> 1 then
            (case is_prime E (cells \<sigma> n) rng of (pr, rng1) \<Rightarrow>
               if pr then Some (factors @ [cells \<sigma> n], rng1, \<sigma>)
               else
                 (case alloc 0 \<sigma> of (a_factor, \<sigma>1) \<Rightarrow>
                    Option.bind (rho_retry E (cells \<sigma>1 n) (cells \<sigma>1 a_factor) rng1)
                      (\<lambda>(d, rng2).
                    Option.bind
                      (f E (Inl (a_factor, rng2, assign a_factor d \<sigma>1)))
                      (\<lambda>(rho_factored, rng3, \<sigma>2).
                         f E
                           (Inr (n, factors @ rho_factored, rng3,
                                 release (assign n (cells \<sigma>2 n div cells \<sigma>2 a_factor) \<sigma>2)))))))
          else Some (factors, rng, \<sigma>)) = Some y"
    and b: "n < used \<sigma>"
  shows "factorize_rec E (Inr (cells \<sigma> n, factors, rng)) = Some (fst y, fst (snd y)) \<and>
         used (snd (snd y)) = used \<sigma> \<and>
         (\<forall>c<used \<sigma>. c \<noteq> n \<longrightarrow> cells (snd (snd y)) c = cells \<sigma> c)"
proof (cases "cells \<sigma> n = 1")
  case True
  with body have "y = (factors, rng, \<sigma>)" by simp
  moreover have "factorize_rec E (Inr (cells \<sigma> n, factors, rng)) = Some (factors, rng)"
    using True by (subst factorize_rec.simps) simp
  ultimately show ?thesis by simp
next
  case False
  obtain pr rng1 where o: "is_prime E (cells \<sigma> n) rng = (pr, rng1)"
    by (cases "is_prime E (cells \<sigma> n) rng") auto
  show ?thesis
  proof (cases pr)
    case True
    with body False o have "y = (factors @ [cells \<sigma> n], rng1, \<sigma>)" by simp
    moreover have "factorize_rec E (Inr (cells \<sigma> n, factors, rng)) =
        Some (factors @ [cells \<sigma> n], rng1)"
      using False o True by (subst factorize_rec.simps) simp
    ultimately show ?thesis by simp
  next
    case nopr: False
    let ?a = "used \<sigma>"
    let ?\<sigma>1 = "\<lparr>cells = (cells \<sigma>)(?a := 0), used = Suc ?a\<rparr>"
    have ne: "n \<noteq> ?a" using b by simp
    from body False o nopr ne obtain d rng2 rf rng3 \<sigma>2
      where rr: "rho_retry E (cells \<sigma> n) 0 rng1 = Some (d, rng2)"
        and rec: "f E (Inl (?a, rng2, assign ?a d ?\<sigma>1)) = Some (rf, rng3, \<sigma>2)"
        and rest: "f E (Inr (n, factors @ rf, rng3,
                     release (assign n (cells \<sigma>2 n div cells \<sigma>2 ?a) \<sigma>2))) = Some y"
      by (auto simp: alloc_def split: Option.bind_splits prod.splits)
    from IH [OF rec] have
      p1: "factorize_rec E (Inl (d, rng2)) = Some (rf, rng3)"
      and u2: "used \<sigma>2 = Suc ?a"
      and c2: "\<forall>c<Suc ?a. cells \<sigma>2 c = cells (assign ?a d ?\<sigma>1) c"
      by (simp_all add: store_post_def assign_def)
    from c2 b have vn: "cells \<sigma>2 n = cells \<sigma> n" and va: "cells \<sigma>2 ?a = d"
      by (simp_all add: assign_def)
    let ?\<sigma>3 = "release (assign n (cells \<sigma>2 n div cells \<sigma>2 ?a) \<sigma>2)"
    have u3: "used ?\<sigma>3 = ?a" by (simp add: release_def assign_def u2)
    have n3: "cells ?\<sigma>3 n = cells \<sigma> n div d" by (simp add: release_def assign_def vn va)
    have c3: "\<forall>c<?a. c \<noteq> n \<longrightarrow> cells ?\<sigma>3 c = cells \<sigma> c"
      using c2 by (simp add: release_def assign_def)
    from IH [OF rest] b u3 have
      p2: "factorize_rec E (Inr (cells \<sigma> n div d, factors @ rf, rng3)) = Some (fst y, fst (snd y))"
      and uy: "used (snd (snd y)) = ?a"
      and cy: "\<forall>c<?a. c \<noteq> n \<longrightarrow> cells (snd (snd y)) c = cells ?\<sigma>3 c"
      by (simp_all add: store_post_def n3)
    have "factorize_rec E (Inr (cells \<sigma> n, factors, rng)) = Some (fst y, fst (snd y))"
      using False o nopr by (subst factorize_rec.simps) (simp add: rr p1 p2)
    moreover have "\<forall>c<?a. c \<noteq> n \<longrightarrow> cells (snd (snd y)) c = cells \<sigma> c"
      using cy c3 by simp
    ultimately show ?thesis using uy by simp
  qed
qed

lemma factorize_store_rec_post:
  fixes E :: "('m, 'r) env"
  assumes "factorize_store_rec E a = Some y"
  shows "store_post E a y"
  using assms
proof (rule factorize_store_rec.raw_induct [where P = store_post, rotated])
  fix f :: "('m, 'r) env \<Rightarrow> (nat \<times> 'r \<times> store) + (nat \<times> int list \<times> 'r \<times> store) \<Rightarrow>
     (int list \<times> 'r \<times> store) option"
    and E :: "('m, 'r) env" and a y
  assume IH: "\<And>E a y. f E a = Some y \<Longrightarrow> store_post E a y"
    and body: "(case a of
        Inl (n_in, rng, \<sigma>) \<Rightarrow>
          (case alloc (cells \<sigma> n_in) \<sigma> of (n, \<sigma>1) \<Rightarrow>
             Option.bind (remove_small_factors_store (PRIMES E) n \<sigma>1) (\<lambda>(factors, \<sigma>2).
             Option.bind (f E (Inr (n, factors, rng, \<sigma>2)))
               (\<lambda>(factors', rng', \<sigma>3). Some (factors', rng', release \<sigma>3))))
      | Inr (n, factors, rng, \<sigma>) \<Rightarrow>
          if cells \<sigma> n \<noteq> 1 then
            (case is_prime E (cells \<sigma> n) rng of (pr, rng1) \<Rightarrow>
               if pr then Some (factors @ [cells \<sigma> n], rng1, \<sigma>)
               else
                 (case alloc 0 \<sigma> of (a_factor, \<sigma>1) \<Rightarrow>
                    Option.bind (rho_retry E (cells \<sigma>1 n) (cells \<sigma>1 a_factor) rng1)
                      (\<lambda>(d, rng2).
                    Option.bind
                      (f E (Inl (a_factor, rng2, assign a_factor d \<sigma>1)))
                      (\<lambda>(rho_factored, rng3, \<sigma>2).
                         f E
                           (Inr (n, factors @ rho_factored, rng3,
                                 release (assign n (cells \<sigma>2 n div cells \<sigma>2 a_factor) \<sigma>2)))))))
          else Some (factors, rng, \<sigma>)) = Some y"
  show "store_post E a y"
  proof (cases a)
    case (Inl c)
    obtain n_in rng \<sigma> where c: "c = (n_in, rng, \<sigma>)" by (cases c) auto
    from body have b: "(case alloc (cells \<sigma> n_in) \<sigma> of (n, \<sigma>1) \<Rightarrow>
             Option.bind (remove_small_factors_store (PRIMES E) n \<sigma>1) (\<lambda>(factors, \<sigma>2).
             Option.bind (f E (Inr (n, factors, rng, \<sigma>2)))
               (\<lambda>(factors', rng', \<sigma>3). Some (factors', rng', release \<sigma>3)))) = Some y"
      by (simp add: Inl c)
    show ?thesis unfolding store_post_def Inl c
      using store_step_inl [of f E, OF IH b] by simp
  next
    case (Inr c)
    obtain n factors rng \<sigma> where c: "c = (n, factors, rng, \<sigma>)" by (cases c) auto
    from body have b: "(if cells \<sigma> n \<noteq> 1 then
            (case is_prime E (cells \<sigma> n) rng of (pr, rng1) \<Rightarrow>
               if pr then Some (factors @ [cells \<sigma> n], rng1, \<sigma>)
               else
                 (case alloc 0 \<sigma> of (a_factor, \<sigma>1) \<Rightarrow>
                    Option.bind (rho_retry E (cells \<sigma>1 n) (cells \<sigma>1 a_factor) rng1)
                      (\<lambda>(d, rng2).
                    Option.bind
                      (f E (Inl (a_factor, rng2, assign a_factor d \<sigma>1)))
                      (\<lambda>(rho_factored, rng3, \<sigma>2).
                         f E
                           (Inr (n, factors @ rho_factored, rng3,
                                 release (assign n (cells \<sigma>2 n div cells \<sigma>2 a_factor) \<sigma>2)))))))
          else Some (factors, rng, \<sigma>)) = Some y"
      by (simp add: Inr c)
    show ?thesis unfolding store_post_def Inr c
      using store_step_inr [of f E, OF IH b] by simp
  qed
qed

lemma store_back_inl:
  fixes E :: "('m, 'r) env"
  assumes IH: "\<And>a y. f E a = Some y \<Longrightarrow> store_pre E a y"
    and body: "Option.bind (remove_small_factors (PRIMES E) v)
            (\<lambda>(n, factors). f E (Inr (n, factors, rng))) = Some y"
    and a: "n_in < used \<sigma>" and v: "cells \<sigma> n_in = v"
  shows "\<exists>\<sigma>'. factorize_store_rec E (Inl (n_in, rng, \<sigma>)) = Some (fst y, snd y, \<sigma>')"
proof -
  let ?n = "used \<sigma>"
  let ?\<sigma>1 = "\<lparr>cells = (cells \<sigma>)(?n := cells \<sigma> n_in), used = Suc ?n\<rparr>"
  from body obtain n' F where r: "remove_small_factors (PRIMES E) v = Some (n', F)"
    and l: "f E (Inr (n', F, rng)) = Some y"
    by (auto split: Option.bind_splits)
  from IH [OF l] have "\<forall>n \<sigma>. n < used \<sigma> \<and> cells \<sigma> n = n' \<longrightarrow>
      (\<exists>\<sigma>'. factorize_store_rec E (Inr (n, F, rng, \<sigma>)) = Some (fst y, snd y, \<sigma>'))"
    by (simp add: store_pre_def)
  then have "\<exists>\<sigma>'. factorize_store_rec E (Inr (?n, F, rng, assign ?n n' ?\<sigma>1)) = Some (fst y, snd y, \<sigma>')"
    by (simp add: assign_def)
  then obtain \<sigma>3 where
    s: "factorize_store_rec E (Inr (?n, F, rng, assign ?n n' ?\<sigma>1)) = Some (fst y, snd y, \<sigma>3)"
    by blast
  have r': "remove_small_factors (PRIMES E) (cells \<sigma> n_in) = Some (n', F)"
    using r v by simp
  have "factorize_store_rec E (Inl (n_in, rng, \<sigma>)) = Some (fst y, snd y, release \<sigma>3)"
    by (subst factorize_store_rec.simps)
       (simp add: alloc_def remove_small_factors_store_def r' s)
  then show ?thesis by blast
qed

lemma store_back_inr:
  fixes E :: "('m, 'r) env"
  assumes IH: "\<And>a y. f E a = Some y \<Longrightarrow> store_pre E a y"
    and body: "(if v \<noteq> 1 then
            (case is_prime E v rng of (pr, rng1) \<Rightarrow>
               if pr then Some (factors @ [v], rng1)
               else
                 Option.bind (rho_retry E v 0 rng1) (\<lambda>(a_factor, rng2).
                 Option.bind (f E (Inl (a_factor, rng2))) (\<lambda>(rho_factored, rng3).
                   f E (Inr (v div a_factor, factors @ rho_factored, rng3)))))
          else Some (factors, rng)) = Some y"
    and b: "n < used \<sigma>" and v: "cells \<sigma> n = v"
  shows "\<exists>\<sigma>'. factorize_store_rec E (Inr (n, factors, rng, \<sigma>)) = Some (fst y, snd y, \<sigma>')"
proof (cases "v = 1")
  case True
  with body have "y = (factors, rng)" by simp
  moreover have "factorize_store_rec E (Inr (n, factors, rng, \<sigma>)) = Some (factors, rng, \<sigma>)"
    using True v by (subst factorize_store_rec.simps) simp
  ultimately show ?thesis by simp
next
  case False
  obtain pr rng1 where o: "is_prime E v rng = (pr, rng1)" by (cases "is_prime E v rng") auto
  show ?thesis
  proof (cases pr)
    case True
    with body False o have "y = (factors @ [v], rng1)" by simp
    moreover have "factorize_store_rec E (Inr (n, factors, rng, \<sigma>)) =
        Some (factors @ [v], rng1, \<sigma>)"
      using False o True v by (subst factorize_store_rec.simps) simp
    ultimately show ?thesis by simp
  next
    case nopr: False
    let ?a = "used \<sigma>"
    let ?\<sigma>1 = "\<lparr>cells = (cells \<sigma>)(?a := 0), used = Suc ?a\<rparr>"
    have ne: "n \<noteq> ?a" using b by simp
    from body False o nopr obtain d rng2 rf rng3
      where rr: "rho_retry E v 0 rng1 = Some (d, rng2)"
        and rec: "f E (Inl (d, rng2)) = Some (rf, rng3)"
        and rest: "f E (Inr (v div d, factors @ rf, rng3)) = Some y"
      by (auto split: Option.bind_splits)
    from IH [OF rec] have "\<forall>n_in \<sigma>. n_in < used \<sigma> \<and> cells \<sigma> n_in = d \<longrightarrow>
        (\<exists>\<sigma>'. factorize_store_rec E (Inl (n_in, rng2, \<sigma>)) = Some (rf, rng3, \<sigma>'))"
      by (simp add: store_pre_def)
    then have "\<exists>\<sigma>'. factorize_store_rec E (Inl (?a, rng2, assign ?a d ?\<sigma>1)) = Some (rf, rng3, \<sigma>')"
      by (simp add: assign_def)
    then obtain \<sigma>2 where
      s1: "factorize_store_rec E (Inl (?a, rng2, assign ?a d ?\<sigma>1)) = Some (rf, rng3, \<sigma>2)"
      by blast
    from factorize_store_rec_post [OF s1] have
      u2: "used \<sigma>2 = Suc ?a"
      and c2: "\<forall>c<Suc ?a. cells \<sigma>2 c = cells (assign ?a d ?\<sigma>1) c"
      by (simp_all add: store_post_def assign_def)
    from c2 b v have vn: "cells \<sigma>2 n = v" and va: "cells \<sigma>2 ?a = d"
      by (simp_all add: assign_def)
    let ?\<sigma>3 = "release (assign n (cells \<sigma>2 n div cells \<sigma>2 ?a) \<sigma>2)"
    have u3: "used ?\<sigma>3 = ?a" by (simp add: release_def assign_def u2)
    have n3: "cells ?\<sigma>3 n = v div d" by (simp add: release_def assign_def vn va)
    from IH [OF rest] have "\<forall>m \<sigma>. m < used \<sigma> \<and> cells \<sigma> m = v div d \<longrightarrow>
        (\<exists>\<sigma>'. factorize_store_rec E (Inr (m, factors @ rf, rng3, \<sigma>)) = Some (fst y, snd y, \<sigma>'))"
      by (simp add: store_pre_def)
    with b u3 n3 obtain \<sigma>' where
      s2: "factorize_store_rec E (Inr (n, factors @ rf, rng3, ?\<sigma>3)) = Some (fst y, snd y, \<sigma>')"
      by (metis (no_types, lifting))
    have "factorize_store_rec E (Inr (n, factors, rng, \<sigma>)) = Some (fst y, snd y, \<sigma>')"
      using False o nopr v ne
      by (subst factorize_store_rec.simps) (simp add: alloc_def rr s1 s2)
    then show ?thesis by blast
  qed
qed

lemma factorize_rec_store_pre:
  fixes E :: "('m, 'r) env"
  assumes "factorize_rec E a = Some y"
  shows "store_pre E a y"
  using assms
proof (rule factorize_rec.raw_induct [where P = store_pre, rotated])
  fix f :: "('m, 'r) env \<Rightarrow> (int \<times> 'r) + (int \<times> int list \<times> 'r) \<Rightarrow> (int list \<times> 'r) option"
    and E :: "('m, 'r) env" and a y
  assume IH: "\<And>E a y. f E a = Some y \<Longrightarrow> store_pre E a y"
    and body: "(case a of
        Inl (n_in, rng) \<Rightarrow>
          Option.bind (remove_small_factors (PRIMES E) n_in)
            (\<lambda>(n, factors). f E (Inr (n, factors, rng)))
      | Inr (n, factors, rng) \<Rightarrow>
          if n \<noteq> 1 then
            (case is_prime E n rng of (pr, rng1) \<Rightarrow>
               if pr then Some (factors @ [n], rng1)
               else
                 Option.bind (rho_retry E n 0 rng1) (\<lambda>(a_factor, rng2).
                 Option.bind (f E (Inl (a_factor, rng2))) (\<lambda>(rho_factored, rng3).
                   f E (Inr (n div a_factor, factors @ rho_factored, rng3)))))
          else Some (factors, rng)) = Some y"
  show "store_pre E a y"
  proof (cases a)
    case (Inl c)
    obtain v rng where c: "c = (v, rng)" by (cases c) auto
    from body have b: "Option.bind (remove_small_factors (PRIMES E) v)
            (\<lambda>(n, factors). f E (Inr (n, factors, rng))) = Some y"
      by (simp add: Inl c)
    show ?thesis unfolding store_pre_def Inl c
      using store_back_inl [of f E, OF IH b] by simp
  next
    case (Inr c)
    obtain v factors rng where c: "c = (v, factors, rng)" by (cases c) auto
    from body have b: "(if v \<noteq> 1 then
            (case is_prime E v rng of (pr, rng1) \<Rightarrow>
               if pr then Some (factors @ [v], rng1)
               else
                 Option.bind (rho_retry E v 0 rng1) (\<lambda>(a_factor, rng2).
                 Option.bind (f E (Inl (a_factor, rng2))) (\<lambda>(rho_factored, rng3).
                   f E (Inr (v div a_factor, factors @ rho_factored, rng3)))))
          else Some (factors, rng)) = Some y"
      by (simp add: Inr c)
    show ?thesis unfolding store_pre_def Inr c
      using store_back_inr [of f E, OF IH b] by simp
  qed
qed

lemma factorize_store_exact:
  assumes "n_in < used \<sigma>"
  shows "(case factorize E (cells \<sigma> n_in) rng of
            None \<Rightarrow> factorize_store E n_in rng \<sigma> = None
          | Some (factors, rng') \<Rightarrow>
              (\<exists>\<sigma>'. factorize_store E n_in rng \<sigma> = Some (factors, rng', \<sigma>') \<and>
                    used \<sigma>' = used \<sigma> \<and> (\<forall>a<used \<sigma>. cells \<sigma>' a = cells \<sigma> a)))"
proof (cases "factorize E (cells \<sigma> n_in) rng")
  case None
  have "factorize_store E n_in rng \<sigma> = None"
  proof (cases "factorize_store E n_in rng \<sigma>")
    case (Some y)
    from factorize_store_rec_post [OF Some [unfolded factorize_store_def]] assms None
    show ?thesis by (simp add: store_post_def factorize_def)
  qed simp
  with None show ?thesis by simp
next
  case (Some y)
  obtain fs r where y: "y = (fs, r)" by (cases y) auto
  from factorize_rec_store_pre [OF Some [unfolded factorize_def]] assms
  obtain \<sigma>' where s: "factorize_store_rec E (Inl (n_in, rng, \<sigma>)) = Some (fs, r, \<sigma>')"
    by (auto simp: store_pre_def y)
  from factorize_store_rec_post [OF s] assms
  have "used \<sigma>' = used \<sigma>" "\<forall>a<used \<sigma>. cells \<sigma>' a = cells \<sigma> a"
    by (simp_all add: store_post_def)
  with s Some y show ?thesis by (simp add: factorize_store_def)
qed

subsection \<open>A list that is returned\<close>

text \<open>
  What holds of a list once \<open>factorize\<close> has returned one, for \<open>n > 1\<close> and a
  table of primes: its product is \<open>n\<close>, the oracle accepts each entry when it accepts
  2 and the entries of the table, and 2 occurs as often as it divides \<open>n\<close>. These
  statements do not say that a list is returned.
\<close>

lemma factorize_returned_round_trip:
  assumes "\<forall>p\<in>set (PRIMES E). isprime (uint p)"
    and "verified E 2" and "\<forall>p\<in>set (PRIMES E). verified E (uint p)"
    and "1 < n" and "factorize E n rng = Some (factors, rng')"
  shows "prod_list factors = n \<and> (\<forall>f\<in>set factors. verified E f) \<and>
         ((\<forall>m r. fst (is_prime E m r) \<longrightarrow> isprime m) \<longrightarrow> (\<forall>f\<in>set factors. isprime f))"
proof -
  from factorize_rec_ok [OF assms(5) [unfolded factorize_def]] assms(1,4)
  have g: "factors_ok E n factors" by (simp add: rec_post_def)
  then have ok: "\<forall>f\<in>set factors. f = 2 \<or> f \<in> uint ` set (PRIMES E) \<or> verified E f"
    by (simp add: factors_ok_def entries_ok_def)
  have "\<forall>f\<in>set factors. verified E f" using ok assms(2,3) by auto
  moreover have "\<forall>f\<in>set factors. isprime f" if snd: "\<forall>m r. fst (is_prime E m r) \<longrightarrow> isprime m"
  proof
    fix f assume "f \<in> set factors"
    with ok consider "f = 2" | "f \<in> uint ` set (PRIMES E)" | "verified E f" by blast
    then show "isprime f"
    proof cases
      case 1 then show ?thesis by (simp add: isprime_2)
    next
      case 2 then show ?thesis using assms(1) by blast
    next
      case 3 then show ?thesis using snd unfolding verified_def by blast
    qed
  qed
  ultimately show ?thesis using g by (simp add: factors_ok_def)
qed

lemma factorize_returned_round_trip_instance:
  "factorize test_env 29716 0 = Some ([2, 2, 19, 23, 17], 2) \<and>
   prod_list [2, 2, 19, 23, 17] = (29716::int) \<and>
   list_all (verified test_env) [2, 2, 19, 23, 17] \<and>
   list_all isprime [2, 2, 19, 23, 17]"
proof -
  have v: "verified test_env m" if "isprime m" for m
    using that by (simp add: verified_def test_env_def)
  have h2: "verified test_env 2" by (rule v) (rule isprime_2)
  have h3: "\<forall>p\<in>set (PRIMES test_env). verified test_env (uint p)"
    using test_env_table v by blast
  have h4: "(1::int) < 29716" by simp
  have h5: "factorize test_env 29716 0 = Some ([2, 2, 19, 23, 17], 2)" by code_simp
  have s: "\<forall>m r. fst (is_prime test_env m r) \<longrightarrow> isprime m" by (simp add: test_env_def)
  from factorize_returned_round_trip [OF test_env_table h2 h3 h4 h5] s h5
  show ?thesis by (simp add: list_all_iff)
qed

lemma factorize_returned_twos:
  assumes "\<forall>p\<in>set (PRIMES E). isprime (uint p)"
    and "1 < n" and "n = 2 ^ k * m" and "odd m"
    and "factorize E n rng = Some (factors, rng')"
  shows "count_list factors 2 = k"
proof -
  from factorize_rec_ok [OF assms(5) [unfolded factorize_def]] assms(1,2)
  have "factors_ok E n factors" by (simp add: rec_post_def)
  then obtain j m' where "n = 2 ^ j * m'" "odd m'" "count_list factors 2 = j"
    by (auto simp: factors_ok_def)
  with pow2_odd_unique [of j m' k m] assms(3,4) show ?thesis by simp
qed

lemma factorize_returned_twos_instance:
  "even (29716::int) \<and> (29716::int) = 2 ^ 2 * 7429 \<and> odd (7429::int) \<and>
   factorize test_env 29716 0 = Some ([2, 2, 19, 23, 17], 2) \<and>
   count_list [2, 2, 19, 23, 17] (2::int) = 2"
proof -
  have h2: "(1::int) < 29716" by simp
  have h3: "(29716::int) = 2 ^ 2 * 7429" by simp
  have h4: "odd (7429::int)" by simp
  have h5: "factorize test_env 29716 0 = Some ([2, 2, 19, 23, 17], 2)" by code_simp
  from factorize_returned_twos [OF test_env_table h2 h3 h4 h5] h3 h4 h5
  show ?thesis by simp
qed

section \<open>The claims\<close>

text \<open>
  C1. The round trip asks \<open>factorize\<close> for a list with the product \<open>n\<close> for every
  \<open>n > 1\<close>. On 125 the code returns no list: \<open>remove_small_factors\<close> divides 5
  out once and leaves 25, the oracle rejects 25, and every attempt of \<open>rho\<close> on 25
  returns 0, so \<^verbatim>\<open>while(a_factor == 0)\<close> does not end. The evaluation is in the
  small environment, for every state of the generator.
\<close>

theorem factorize_125_never_returns: "factorize test_env 125 rng = None"
proof -
  have r: "remove_small_factors (PRIMES test_env) 125 = Some (25, [5])" by code_simp
  have m: "Montgomery_Params test_env 25 = residue_monty 25" by (simp add: test_env_def)
  have p: "\<not> fst (is_prime test_env 25 rng)"
  proof -
    have "\<not> isprime 25" by code_simp
    then show ?thesis by (simp add: test_env_def)
  qed
  show ?thesis
    by (simp add: factorize_unfold r factor_loop_25_never [OF m p])
qed

text \<open>
  C2. An attempt of \<open>rho\<close> on \<open>n > 1\<close> that returns a value \<open>d\<close> other than the
  failure value 0 returns a divisor of \<open>n\<close> with \<open>1 < d < n\<close>: the value \<open>n\<close> is
  never returned, the pass that computes \<open>d = n\<close> leaves with 0. This holds for every
  Montgomery arithmetic, generator and seed, and also for a prime \<open>n\<close>.
\<close>

theorem rho_nonzero_proper_divisor:
  assumes "1 < n" and "rho E n rng = (d, rng')" and "d \<noteq> 0"
  shows "1 < d \<and> d < n \<and> d dvd n"
  using rho_result [OF assms(1,2)] assms(3) by simp

theorem rho_nonzero_proper_divisor_witness:
  "rho test_env 323 0 = (19, 1) \<and> (19::int) \<noteq> 0 \<and> (1::int) < 19 \<and> (19::int) < 323 \<and> (19::int) dvd 323"
proof -
  have h1: "(1::int) < 323" by simp
  have h2: "rho test_env 323 0 = (19, 1)" by code_simp
  have h3: "(19::int) \<noteq> 0" by simp
  from rho_nonzero_proper_divisor [OF h1 h2 h3] h2 show ?thesis by simp
qed

text \<open>
  C3. An attempt of \<open>rho\<close> on \<open>n > 1\<close> ends: fewer than \<open>0xFFFF0000\<close> passes
  through the body of the loop, started in the state that \<open>rho\<close> builds, leave the
  function with the value that \<open>rho\<close> returns, and this value is 0 or a divisor
  \<open>d\<close> of \<open>n\<close> with \<open>1 < d < n\<close>. The pass in which \<open>i\<close> reaches the cap leaves
  with 0 (lemma \<open>rho_body_cap\<close>).
\<close>

theorem rho_attempt_bounded:
  assumes "1 < n"
  shows "\<exists>m<0xFFFF0000.
           rho_iter m (Montgomery_Params E n) n
             (m_init (Montgomery_Params E n) (fst (random_integer E rng 2 (n - 3))),
              m_init (Montgomery_Params E n) (fst (random_integer E rng 2 (n - 3))),
              m_one (Montgomery_Params E n), 1, 2)
           = Some (fst (rho E n rng)) \<and>
           (fst (rho E n rng) = 0 \<or>
            (1 < fst (rho E n rng) \<and> fst (rho E n rng) < n \<and> fst (rho E n rng) dvd n))"
proof -
  let ?M = "Montgomery_Params E n"
  let ?x = "m_init ?M (fst (random_integer E rng 2 (n - 3)))"
  let ?s = "(?x, ?x, m_one ?M, 1 :: 64 word, 2 :: 64 word)"
  have r: "fst (rho E n rng) = rho_loop ?M n ?s"
    by (simp add: rho_def Let_def split: prod.splits)
  have "(case ?s of (x, y, z, i, k) \<Rightarrow> unat (0xFFFEFFFF - i)) < 0xFFFEFFFF" by simp
  from rho_iter_reaches [OF this]
  have "rho_iter 0xFFFEFFFF ?M n ?s = Some (rho_loop ?M n ?s)" .
  moreover have "(0xFFFEFFFF :: nat) < 0xFFFF0000" by simp
  ultimately show ?thesis using rho_loop_result [OF assms, of ?M ?s] r
    by (intro exI [of _ "0xFFFEFFFF"]) simp
qed

theorem rho_attempt_bounded_witness:
  "(1::int) < 323 \<and> (\<exists>m<0xFFFF0000.
           rho_iter m (Montgomery_Params test_env 323) 323
             (m_init (Montgomery_Params test_env 323) (fst (random_integer test_env (0::nat) 2 (323 - 3))),
              m_init (Montgomery_Params test_env 323) (fst (random_integer test_env (0::nat) 2 (323 - 3))),
              m_one (Montgomery_Params test_env 323), 1, 2)
           = Some (fst (rho test_env 323 0)) \<and>
           (fst (rho test_env 323 0) = 0 \<or>
            (1 < fst (rho test_env 323 0) \<and> fst (rho test_env 323 0) < 323 \<and>
             fst (rho test_env 323 0) dvd 323)))"
proof -
  have h: "(1::int) < 323" by simp
  from rho_attempt_bounded [OF h, of test_env "0::nat"] h show ?thesis by blast
qed



text \<open>
  C5. The modular inverse command fails when \<open>n\<close> is not coprime with \<open>mod\<close>; for
  \<open>n = 4\<close> and \<open>mod = 8\<close> it fails and prints no number. The failure is the one of
  the primitive, as the specification describes it; the command has no check of its
  own.
\<close>

theorem modular_inverse_fails_not_coprime:
  assumes "\<not> coprime n m"
  shows "Modular_Inverse_go n m = Inl Not_Invertible"
proof (cases "inverse_mod n m")
  case (Inl e)
  then show ?thesis by (cases e) (simp add: Modular_Inverse_go_def)
next
  case (Inr y)
  from inverse_mod_coprime [OF this] assms show ?thesis by simp
qed

theorem modular_inverse_fails_not_coprime_witness:
  "\<not> coprime (4::int) 8 \<and> Modular_Inverse_go 4 8 = Inl Not_Invertible"
proof -
  have h: "\<not> coprime (4::int) 8"
  proof
    assume "coprime (4::int) 8"
    moreover have "(2::int) dvd 4" "(2::int) dvd 8" by simp_all
    ultimately have "is_unit (2::int)" by (rule coprime_common_divisor)
    then show False by simp
  qed
  from modular_inverse_fails_not_coprime [OF h] h show ?thesis by simp
qed

text \<open>
  C6, as stated, fails on the code: \<open>Factor::go\<close> does not reject the input 0. The
  command calls \<open>factorize\<close> on it, which runs \<open>remove_small_factors\<close> on it, whose
  first loop does not end on 0: neither returns, and nothing is printed.
\<close>

theorem factor_go_zero_not_rejected:
  "remove_small_factors (PRIMES test_env) 0 = None \<and> Factor_go test_env 0 (0::nat) = None"
  by (simp add: Factor_go_def factorize_zero remove_small_factors_def even_loop_zero)

text \<open>
  C6, amended. The factor command does not validate its input: for every integer
  \<open>n\<close>, also 0 and the negative ones, what \<open>Factor::go\<close> prints is what
  \<open>factorize\<close> returns for this \<open>n\<close>, sorted, under the header \<open>n\<close>; and
  \<open>factorize\<close> does not validate \<open>n\<close> either, so that a call on 0 is made and
  never returns.
\<close>

theorem factor_go_unchecked:
  "Factor_go E n rng =
     (case factorize E n rng of None \<Rightarrow> None | Some (factors, rng') \<Rightarrow> Some (n, sort factors)) \<and>
   factorize E 0 rng = None \<and> Factor_go E 0 rng = None"
  by (simp add: Factor_go_def factorize_zero)

text \<open>
  C7. For a table of primes in ascending order, \<open>factorize\<close> on an entry \<open>p\<close> of
  the table returns, and the list is \<open>[p]\<close>. Neither the oracle nor \<open>rho\<close> is
  called, and the generator is left as it was.
\<close>

theorem factorize_table_prime:
  assumes "\<forall>p\<in>set (PRIMES E). isprime (uint p)" and "sorted (PRIMES E)"
    and "p \<in> set (PRIMES E)"
  shows "factorize E (uint p) rng = Some ([uint p], rng)"
proof -
  have "factor_loop E 1 [uint p] rng = Some ([uint p], rng)"
    by (subst factor_loop_unfold) simp
  then show ?thesis
    using remove_small_factors_table_prime [OF assms]
    by (simp add: factorize_unfold)
qed

theorem factorize_table_prime_witness:
  "sorted (PRIMES test_env) \<and> (7 :: 16 word) \<in> set (PRIMES test_env) \<and>
   factorize test_env (uint (7 :: 16 word)) (0::nat) = Some ([uint (7 :: 16 word)], 0)"
proof -
  have h2: "sorted (PRIMES test_env)" by (simp add: test_env_def)
  have h3: "(7 :: 16 word) \<in> set (PRIMES test_env)" by (simp add: test_env_def)
  from factorize_table_prime [OF test_env_table h2 h3, of 0] h2 h3 show ?thesis by simp
qed

text \<open>
  C8. The claim asks for a list with as many entries 2 as 2 divides \<open>n\<close>, for every
  even \<open>n > 1\<close>. On 250 the code returns no list: the even loop appends one 2,
  the table loop divides 5 out once and leaves 25, and the loop that repeats \<open>rho\<close>
  on 25 does not end. The evaluation is in the small environment, for every state of
  the generator.
\<close>

theorem factorize_250_never_returns: "factorize test_env 250 rng = None"
proof -
  have r: "remove_small_factors (PRIMES test_env) 250 = Some (25, [2, 5])" by code_simp
  have m: "Montgomery_Params test_env 25 = residue_monty 25" by (simp add: test_env_def)
  have p: "\<not> fst (is_prime test_env 25 rng)"
  proof -
    have "\<not> isprime 25" by code_simp
    then show ?thesis by (simp add: test_env_def)
  qed
  show ?thesis
    by (simp add: factorize_unfold r factor_loop_25_never [OF m p])
qed

text \<open>
  C9. For a table of primes and \<open>n > 0\<close>, \<open>remove_small_factors\<close> returns, with a
  residual \<open>n'\<close> and a list \<open>F\<close> such that \<open>n = n' * prod_list F\<close>; every entry of
  \<open>F\<close> is 2 or an entry of the table, and divides \<open>n\<close>.
\<close>

theorem remove_small_factors_product:
  assumes "\<forall>p\<in>set tbl. isprime (uint p)" and "0 < n"
  shows "\<exists>n' F. remove_small_factors tbl n = Some (n', F) \<and> n = n' * prod_list F \<and>
           (\<forall>f\<in>set F. (f = 2 \<or> f \<in> uint ` set tbl) \<and> f dvd n)"
proof -
  have "n \<noteq> 0" using assms(2) by simp
  from remove_small_factors_spec [OF assms(1) this]
  obtain j n1 n' F where r: "remove_small_factors tbl n = Some (n', replicate j 2 @ F)"
    and n: "n = 2 ^ j * n1" and n1: "n1 = n' * prod_list F"
    and F: "\<forall>f\<in>set F. f \<in> uint ` set tbl \<and> f dvd n1" by blast
  have "n = n' * prod_list (replicate j 2 @ F)" using n n1 by simp
  moreover have "\<forall>f\<in>set (replicate j 2 @ F). (f = 2 \<or> f \<in> uint ` set tbl) \<and> f dvd n"
  proof
    fix f assume "f \<in> set (replicate j 2 @ F)"
    then consider "f = 2" "0 < j" | "f \<in> set F" by auto
    then show "(f = 2 \<or> f \<in> uint ` set tbl) \<and> f dvd n"
    proof cases
      case 1
      then obtain j' where "j = Suc j'" by (cases j) auto
      with n 1 show ?thesis by simp
    next
      case 2
      with F have "f \<in> uint ` set tbl" "f dvd n1" by auto
      moreover have "n1 dvd n" using n by simp
      ultimately show ?thesis by (auto intro: dvd_trans)
    qed
  qed
  ultimately show ?thesis using r by blast
qed

theorem remove_small_factors_product_witness:
  "(0::int) < 60 \<and> remove_small_factors [3, 5, 7, 11, 13] 60 = Some (1, [2, 2, 3, 5]) \<and>
   (60::int) = 1 * prod_list [2, 2, 3, 5]"
proof -
  have h1: "\<forall>p\<in>set [3, 5, 7, 11, 13 :: 16 word]. isprime (uint p)" by code_simp
  have h2: "(0::int) < 60" by simp
  have e: "remove_small_factors [3, 5, 7, 11, 13] 60 = Some (1, [2, 2, 3, 5])" by code_simp
  from remove_small_factors_product [OF h1 h2] e h2 show ?thesis by simp
qed

text \<open>
  C10. \<open>factorize\<close> leaves the integer of its caller as it was. For a reference
  \<open>n_in\<close> to an object that is alive, the call over the store returns exactly when
  \<open>factorize\<close> returns on the value of that object, with the same list; and after
  the call the same objects are alive and each has the value it had, the one behind
  \<open>n_in\<close> among them. So the header that \<open>Factor::go\<close> prints, read from its
  \<open>n\<close> after the call, is the integer that was parsed. The instance shows the
  residual 1 that \<open>remove_small_factors\<close> leaves in the object it is given.
\<close>

theorem factorize_keeps_callers_integer:
  assumes "n_in < used \<sigma>"
  shows "(case factorize E (cells \<sigma> n_in) rng of
            None \<Rightarrow> factorize_store E n_in rng \<sigma> = None
          | Some (factors, rng') \<Rightarrow>
              (\<exists>\<sigma>'. factorize_store E n_in rng \<sigma> = Some (factors, rng', \<sigma>') \<and>
                    used \<sigma>' = used \<sigma> \<and> (\<forall>a<used \<sigma>. cells \<sigma>' a = cells \<sigma> a))) \<and>
         Factor_go_store E v rng0 =
           (case factorize E v rng0 of
              None \<Rightarrow> None
            | Some (factors, rng') \<Rightarrow> Some (v, sort factors))"
proof -
  let ?\<sigma>0 = "\<lparr>cells = (\<lambda>a. 0) (0 := v), used = Suc 0\<rparr>"
  have a: "alloc v \<lparr>cells = (\<lambda>a. 0), used = 0\<rparr> = (0, ?\<sigma>0)" by (simp add: alloc_def)
  have lt: "0 < used ?\<sigma>0" by simp
  note ex = factorize_store_exact [OF lt, of E rng0]
  have "Factor_go_store E v rng0 =
           (case factorize E v rng0 of
              None \<Rightarrow> None
            | Some (factors, rng') \<Rightarrow> Some (v, sort factors))"
  proof (cases "factorize E v rng0")
    case None
    with ex have "factorize_store E 0 rng0 ?\<sigma>0 = None" by simp
    with None show ?thesis by (simp add: Factor_go_store_def a)
  next
    case (Some y)
    obtain fs r where y: "y = (fs, r)" by (cases y) auto
    from ex Some y obtain \<sigma>' where "factorize_store E 0 rng0 ?\<sigma>0 = Some (fs, r, \<sigma>')"
      and "\<forall>a<used ?\<sigma>0. cells \<sigma>' a = cells ?\<sigma>0 a" by auto
    then show ?thesis using Some y by (simp add: Factor_go_store_def a)
  qed
  with factorize_store_exact [OF assms, of E rng] show ?thesis by simp
qed

theorem factorize_keeps_callers_integer_witness:
  "(0::nat) < used \<lparr>cells = (\<lambda>a. 0) (0 := 12), used = Suc 0\<rparr> \<and>
   (\<exists>\<sigma>'. factorize_store test_env 0 (0::nat) \<lparr>cells = (\<lambda>a. 0) (0 := 12), used = Suc 0\<rparr>
           = Some ([2, 2, 3], 0, \<sigma>') \<and> used \<sigma>' = Suc 0 \<and> cells \<sigma>' 0 = 12) \<and>
   Factor_go_store test_env 12 (0::nat) = Some (12, [2, 2, 3]) \<and>
   map_option (\<lambda>(F, \<sigma>'). cells \<sigma>' 0)
     (remove_small_factors_store (PRIMES test_env) 0 \<lparr>cells = (\<lambda>a. 0) (0 := 12), used = Suc 0\<rparr>)
     = Some 1"
proof -
  let ?\<sigma> = "\<lparr>cells = (\<lambda>a. 0) (0 := 12), used = Suc 0\<rparr>"
  have h: "(0::nat) < used ?\<sigma>" by simp
  have f: "factorize test_env 12 (0::nat) = Some ([2, 2, 3], 0)" by code_simp
  have r: "remove_small_factors (PRIMES test_env) 12 = Some (1, [2, 2, 3])" by code_simp
  note t = factorize_keeps_callers_integer [OF h, of test_env 0 12 0]
  from t f have 1: "\<exists>\<sigma>'. factorize_store test_env 0 (0::nat) ?\<sigma> = Some ([2, 2, 3], 0, \<sigma>') \<and>
      used \<sigma>' = Suc 0 \<and> cells \<sigma>' 0 = 12"
    by auto
  from t f have 2: "Factor_go_store test_env 12 (0::nat) = Some (12, [2, 2, 3])"
    by simp
  have 3: "map_option (\<lambda>(F, \<sigma>'). cells \<sigma>' 0)
     (remove_small_factors_store (PRIMES test_env) 0 ?\<sigma>) = Some 1"
    by (simp add: remove_small_factors_store_def r assign_def)
  from h 1 2 3 show ?thesis by blast
qed

end
